theory Spec2Isabelle
  imports Main "HOL-Library.Word" "HOL-Library.List_Lexorder"
begin

unbundle bit_operations_syntax

section \<open>Bytes, keys and errors\<close>

text \<open>
  A Go \<^verbatim>\<open>[]byte\<close> is a list of 8-bit words. \<^verbatim>\<open>bytes.Compare\<close> is the
  lexicographic order on byte strings with unsigned bytes, which is the order that
  \<open>HOL-Library.List_Lexorder\<close> puts on lists of words. A slice that the code tests
  against \<^verbatim>\<open>nil\<close> (an origin, a last key, the generator marker) is a
  \<open>bytes option\<close>, \<open>None\<close> being \<^verbatim>\<open>nil\<close>.
\<close>

type_synonym byte = "8 word"
type_synonym bytes = "byte list"

text \<open>
  Errors returned by the code and panics of the Go runtime are values.
  \<open>Panic\<close> stands for every Go panic (an explicit \<^verbatim>\<open>panic(...)\<close>, a nil
  dereference, an index out of range); \<open>LibError n\<close> is an error handed back by an
  external collaborator (trie, database), told apart by a number.
\<close>

datatype error =
    Panic
  | ErrSnapshotStale
  | ErrWrongRoot
  | ErrAborted
  | LibError nat

definition HashLength :: nat where
  "HashLength = 32"

definition accountCheckRange :: int where
  "accountCheckRange = 128"

definition storageCheckRange :: int where
  "storageCheckRange = 1024"

section \<open>The range prover: collecting the batch\<close>

text \<open>
  The key/value store is an ordered list of (key, value) pairs, ascending by key.
\<close>

type_synonym kvdb = "(bytes \<times> bytes) list"

text \<open>
  Modelled from the spec: the store's iterator (\<^verbatim>\<open>NewIterator(prefix, origin)\<close>) is not
  part of the sources; section 6 of the specification says it is a forward iterator
  bounded by \<open>prefix\<close> that starts at the first key \<open>\<ge> prefix || origin\<close>.
\<close>

definition NewIterator :: "kvdb \<Rightarrow> bytes \<Rightarrow> bytes option \<Rightarrow> (bytes \<times> bytes) list" where
  "NewIterator db prefix origin =
     filter (\<lambda>(k, v). take (length prefix) k = prefix \<and>
                       prefix @ (case origin of None \<Rightarrow> [] | Some org \<Rightarrow> org) \<le> k) db"

text \<open>
  The value appended for one iterated entry: the raw value when there is no conversion
  function or when the conversion fails, the converted value otherwise.
\<close>

definition convertValue :: "(bytes \<Rightarrow> error + bytes) option \<Rightarrow> bytes \<Rightarrow> bytes" where
  "convertValue valueConvertFn v =
     (case valueConvertFn of
        None \<Rightarrow> v
      | Some f \<Rightarrow> (case f v of Inl err \<Rightarrow> v | Inr val \<Rightarrow> val))"

text \<open>
  The iteration loop of \<^verbatim>\<open>proveRange\<close>, one equation per remaining iterator content.
  The accumulators \<open>ks\<close> and \<open>vs\<close> are the slices \<^verbatim>\<open>keys\<close> and
  \<^verbatim>\<open>vals\<close>, \<open>maxn\<close> is \<^verbatim>\<open>max\<close>; the result also carries \<^verbatim>\<open>diskMore\<close>.
  The order of the two tests is the source's: the length test (\<^verbatim>\<open>continue\<close>)
  comes before the capacity test (\<^verbatim>\<open>break\<close>).
\<close>

fun collect ::
  "bytes \<Rightarrow> int \<Rightarrow> (bytes \<Rightarrow> error + bytes) option \<Rightarrow> (bytes \<times> bytes) list \<Rightarrow>
   bytes list \<Rightarrow> bytes list \<Rightarrow> bytes list \<times> bytes list \<times> bool" where
  "collect prefix maxn valueConvertFn [] ks vs = (ks, vs, False)"
| "collect prefix maxn valueConvertFn ((key, val) # iter) ks vs =
     (if length key \<noteq> length prefix + HashLength then
        collect prefix maxn valueConvertFn iter ks vs
      else if int (length ks) = maxn then (ks, vs, True)
      else collect prefix maxn valueConvertFn iter
             (ks @ [drop (length prefix) key])
             (vs @ [convertValue valueConvertFn val]))"

section \<open>The range prover: verification\<close>

text \<open>
  The trie library is an external collaborator; the prover and the generator are
  parametrised by its operations. \<open>'tr\<close> is the type of an opened trie.
  \<^item> \<open>StackTrieHash kvs\<close>: the root of a fresh stack trie after \<^verbatim>\<open>TryUpdate\<close> of
    every pair in order.
  \<^item> \<open>trieNew root\<close>: \<^verbatim>\<open>trie.New(root, dl.triedb)\<close>.
  \<^item> \<open>trieNewRelay root kvs\<close>: \<^verbatim>\<open>trie.New(root, triedb)\<close> over the relay cache
    built from the batch; the source drops its error, so the result is a trie or nil.
  \<^item> \<open>Prove tr key\<close>: the proof nodes that \<^verbatim>\<open>tr.Prove(key, 0, proof)\<close> writes.
  \<^item> \<open>VerifyRangeProof root first last keys vals proof\<close>: the \<^verbatim>\<open>cont\<close> flag and
    the error of \<^verbatim>\<open>trie.VerifyRangeProof\<close>.
  \<^item> \<open>NodeIterator tr origin\<close>: the leaves that the iterator delivers from
    \<open>origin\<close> on, and the iterator's final error.
\<close>

record 'tr trieLib =
  StackTrieHash :: "(bytes \<times> bytes) list \<Rightarrow> bytes"
  trieNew :: "bytes \<Rightarrow> error + 'tr"
  trieNewRelay :: "bytes \<Rightarrow> (bytes \<times> bytes) list \<Rightarrow> 'tr option"
  Prove :: "'tr \<Rightarrow> bytes \<Rightarrow> error + bytes list"
  VerifyRangeProof ::
    "bytes \<Rightarrow> bytes \<Rightarrow> bytes option \<Rightarrow> bytes list \<Rightarrow> bytes list \<Rightarrow> bytes list \<Rightarrow> bool \<times> error option"
  NodeIterator :: "'tr \<Rightarrow> bytes option \<Rightarrow> (bytes \<times> bytes) list \<times> error option"

record 'tr proofResult =
  keys :: "bytes list"
  vals :: "bytes list"
  diskMore :: bool
  trieMore :: bool
  proofErr :: "error option"
  tr :: "'tr option"

definition valid :: "'tr proofResult \<Rightarrow> bool" where
  "valid result = (proofErr result = None)"

definition lastKey :: "bytes list \<Rightarrow> bytes option" where
  "lastKey ks = (if length ks > 0 then Some (ks ! (length ks - 1)) else None)"

definition resultLast :: "'tr proofResult \<Rightarrow> bytes option" where
  "resultLast result = lastKey (keys result)"

text \<open>
  \<^verbatim>\<open>proveRange\<close>. Beside the proof result the model returns the list of keys for
  which an edge proof was requested from the trie (the calls of \<^verbatim>\<open>tr.Prove\<close>, in
  order), so that "no edge proof is requested" can be stated.
\<close>

definition proveRange ::
  "'tr trieLib \<Rightarrow> kvdb \<Rightarrow> bytes \<Rightarrow> bytes \<Rightarrow> bytes option \<Rightarrow> int \<Rightarrow>
   (bytes \<Rightarrow> error + bytes) option \<Rightarrow> error + ('tr proofResult \<times> bytes list)" where
  "proveRange lib db root prefix origin maxn valueConvertFn =
     (case collect prefix maxn valueConvertFn (NewIterator db prefix origin) [] [] of
        (ks, vs, dmore) \<Rightarrow>
          if origin = None \<and> \<not> dmore then
            (if StackTrieHash lib (zip ks vs) \<noteq> root then
               Inr (\<lparr>keys = ks, vals = vs, diskMore = False, trieMore = False,
                      proofErr = Some ErrWrongRoot, tr = None\<rparr>, [])
             else
               Inr (\<lparr>keys = ks, vals = vs, diskMore = False, trieMore = False,
                      proofErr = None, tr = None\<rparr>, []))
          else
            (case trieNew lib root of
               Inl err \<Rightarrow> Inl err
             | Inr t \<Rightarrow>
                 let lst = lastKey ks;
                     first = (case origin of None \<Rightarrow> replicate HashLength 0 | Some org \<Rightarrow> org)
                 in
                 (case Prove lib t first of
                    Inl err \<Rightarrow>
                      Inr (\<lparr>keys = ks, vals = vs, diskMore = dmore, trieMore = False,
                             proofErr = Some err, tr = Some t\<rparr>, [first])
                  | Inr nodes1 \<Rightarrow>
                      (case lst of
                         None \<Rightarrow>
                           (case VerifyRangeProof lib root first None ks vs nodes1 of
                              (cont, err) \<Rightarrow>
                                Inr (\<lparr>keys = ks, vals = vs, diskMore = dmore, trieMore = cont,
                                       proofErr = err, tr = Some t\<rparr>, [first]))
                       | Some l \<Rightarrow>
                           (case Prove lib t l of
                              Inl err \<Rightarrow>
                                Inr (\<lparr>keys = ks, vals = vs, diskMore = dmore, trieMore = False,
                                       proofErr = Some err, tr = Some t\<rparr>, [first, l])
                            | Inr nodes2 \<Rightarrow>
                                (case VerifyRangeProof lib root first (Some l) ks vs
                                        (nodes1 @ nodes2) of
                                   (cont, err) \<Rightarrow>
                                     Inr (\<lparr>keys = ks, vals = vs, diskMore = dmore,
                                            trieMore = cont, proofErr = err, tr = Some t\<rparr>,
                                          [first, l])))))))"

text \<open>
  The key passed to the trie as the first edge of a range: the origin, or the zero hash
  when the origin is nil.
\<close>

definition firstKey :: "bytes option \<Rightarrow> bytes" where
  "firstKey org = (case org of None \<Rightarrow> replicate HashLength 0 | Some k \<Rightarrow> k)"

text \<open>
  The entries that take part in a batch: those whose key has exactly the length
  \<open>len(prefix) + 32\<close>, cut at the capacity (a negative capacity never equals a length,
  so it cuts nothing). These two definitions are used to state what the loop computes.
\<close>

definition exactLen :: "bytes \<Rightarrow> bytes \<times> bytes \<Rightarrow> bool" where
  "exactLen prefix = (\<lambda>(k, v). length k = length prefix + HashLength)"

definition batchEntries :: "bytes \<Rightarrow> int \<Rightarrow> (bytes \<times> bytes) list \<Rightarrow> (bytes \<times> bytes) list" where
  "batchEntries prefix maxn iter =
     (if maxn < 0 then filter (exactLen prefix) iter
      else take (nat maxn) (filter (exactLen prefix) iter))"

section \<open>The generator: one range step\<close>

text \<open>
  The callback \<^verbatim>\<open>onState(key, val, write, delete)\<close> works on a state \<open>'s\<close> (the write
  batch, the statistics) and may fail. A \<^verbatim>\<open>nil\<close> value is \<open>None\<close>. When a callback
  fails the range step returns the error; the state reached at that point is not
  tracked by the model.
\<close>

type_synonym 's onStateCallback = "bytes \<Rightarrow> bytes option \<Rightarrow> bool \<Rightarrow> bool \<Rightarrow> 's \<Rightarrow> error + 's"

text \<open>
  \<^verbatim>\<open>proofResult.forEach\<close>, applied to the callback of the valid branch. Reading
  \<^verbatim>\<open>result.vals[i]\<close> past the end of \<^verbatim>\<open>vals\<close> panics.
\<close>

fun forEach :: "(bytes \<Rightarrow> bytes \<Rightarrow> 's \<Rightarrow> error + 's) \<Rightarrow> bytes list \<Rightarrow> bytes list \<Rightarrow> 's \<Rightarrow> error + 's" where
  "forEach callback [] vs s = Inr s"
| "forEach callback (key # ks) vs s =
     (case vs of
        [] \<Rightarrow> Inl Panic
      | val # vs' \<Rightarrow>
          (case callback key val s of
             Inl err \<Rightarrow> Inl err
           | Inr s' \<Rightarrow> forEach callback ks vs' s'))"

text \<open>
  The inner loop \<^verbatim>\<open>for len(kvkeys) > 0\<close> of the fallback, run for the trie entry
  \<open>(key, val)\<close>: it returns \<^verbatim>\<open>write\<close> and what is left of \<^verbatim>\<open>kvkeys\<close> and
  \<^verbatim>\<open>kvvals\<close>. The counters of the source (\<^verbatim>\<open>created\<close>, \<^verbatim>\<open>updated\<close>, ...) only
  feed the log and are left out.
\<close>

fun snapLoop ::
  "'s onStateCallback \<Rightarrow> bytes \<Rightarrow> bytes \<Rightarrow> bytes list \<Rightarrow> bytes list \<Rightarrow> 's \<Rightarrow>
   error + (bool \<times> bytes list \<times> bytes list \<times> 's)" where
  "snapLoop onState key val [] kvvals s = Inr (True, [], kvvals, s)"
| "snapLoop onState key val (k0 # kvkeys) kvvals s =
     (if k0 < key then
        (case onState k0 None False True s of
           Inl err \<Rightarrow> Inl err
         | Inr s' \<Rightarrow>
             (case kvvals of
                [] \<Rightarrow> Inl Panic
              | v0 # kvvals' \<Rightarrow> snapLoop onState key val kvkeys kvvals' s'))
      else if k0 = key then
        (case kvvals of
           [] \<Rightarrow> Inl Panic
         | v0 # kvvals' \<Rightarrow> Inr (v0 \<noteq> val, kvkeys, kvvals', s))
      else Inr (True, k0 # kvkeys, kvvals, s))"

text \<open>
  The loop \<^verbatim>\<open>for iter.Next()\<close> over the trie leaves. It returns \<^verbatim>\<open>trieMore\<close>, the
  snapshot keys not yet consumed and the state.
\<close>

fun trieLoop ::
  "'s onStateCallback \<Rightarrow> bytes option \<Rightarrow> (bytes \<times> bytes) list \<Rightarrow> bytes list \<Rightarrow> bytes list \<Rightarrow> 's \<Rightarrow>
   error + (bool \<times> bytes list \<times> 's)" where
  "trieLoop onState lst [] kvkeys kvvals s = Inr (False, kvkeys, s)"
| "trieLoop onState lst ((key, val) # iter) kvkeys kvvals s =
     (if (case lst of None \<Rightarrow> False | Some l \<Rightarrow> l < key) then Inr (True, kvkeys, s)
      else
        (case snapLoop onState key val kvkeys kvvals s of
           Inl err \<Rightarrow> Inl err
         | Inr (write, kvkeys', kvvals', s') \<Rightarrow>
             (case onState key (Some val) write False s' of
                Inl err \<Rightarrow> Inl err
              | Inr s'' \<Rightarrow> trieLoop onState lst iter kvkeys' kvvals' s'')))"

text \<open>The last loop: every snapshot key that is left is deleted.\<close>

fun deleteLoop :: "'s onStateCallback \<Rightarrow> bytes list \<Rightarrow> 's \<Rightarrow> error + 's" where
  "deleteLoop onState [] s = Inr s"
| "deleteLoop onState (key # kvkeys) s =
     (case onState key None False True s of
        Inl err \<Rightarrow> Inl err
      | Inr s' \<Rightarrow> deleteLoop onState kvkeys s')"

text \<open>
  The fallback of \<^verbatim>\<open>generateRange\<close> from the point where the trie is open: the trie
  loop, the check of the iterator's error, the deletion of what is left. It returns
  \<^verbatim>\<open>trieMore\<close> and the state. The iterator is given as the leaves it yields and
  the error it ends with; \<^verbatim>\<open>iter.Err\<close> is set only when \<^verbatim>\<open>iter.Next()\<close> returns false,
  so after a \<^verbatim>\<open>break\<close> at the first key past \<open>last\<close> it is still nil.
\<close>

definition regenerate ::
  "'s onStateCallback \<Rightarrow> bytes option \<Rightarrow> (bytes \<times> bytes) list \<times> error option \<Rightarrow>
   bytes list \<Rightarrow> bytes list \<Rightarrow> 's \<Rightarrow> error + (bool \<times> 's)" where
  "regenerate onState lst leaves kvkeys kvvals s =
     (case trieLoop onState lst (fst leaves) kvkeys kvvals s of
        Inl err \<Rightarrow> Inl err
      | Inr (tmore, kvkeys', s') \<Rightarrow>
          (case (if tmore then None else snd leaves) of
             Some err \<Rightarrow> Inl err
           | None \<Rightarrow>
               (case deleteLoop onState kvkeys' s' of
                  Inl err \<Rightarrow> Inl err
                | Inr s'' \<Rightarrow> Inr (tmore, s''))))"

text \<open>
  \<^verbatim>\<open>generateRange\<close>: the result is \<open>(exhausted, last)\<close> and the state. The database
  \<open>db\<close> is the content of the disk at the moment of the call.
\<close>

definition generateRange ::
  "'tr trieLib \<Rightarrow> kvdb \<Rightarrow> bytes \<Rightarrow> bytes \<Rightarrow> bytes option \<Rightarrow> int \<Rightarrow> 's onStateCallback \<Rightarrow>
   (bytes \<Rightarrow> error + bytes) option \<Rightarrow> 's \<Rightarrow> error + ((bool \<times> bytes option) \<times> 's)" where
  "generateRange lib db root prefix origin maxn onState valueConvertFn s =
     (case proveRange lib db root prefix origin maxn valueConvertFn of
        Inl err \<Rightarrow> Inl err
      | Inr (result, proved) \<Rightarrow>
          let lst = resultLast result in
          if valid result then
            (case forEach (\<lambda>key val. onState key (Some val) False False)
                    (keys result) (vals result) s of
               Inl err \<Rightarrow> Inl err
             | Inr s' \<Rightarrow> Inr ((\<not> diskMore result \<and> \<not> trieMore result, lst), s'))
          else
            let t1 = (if length (keys result) > 0
                      then trieNewRelay lib root (zip (keys result) (vals result))
                      else tr result)
            in
            (case (case t1 of None \<Rightarrow> trieNew lib root | Some t \<Rightarrow> Inr t) of
               Inl err \<Rightarrow> Inl err
             | Inr t \<Rightarrow>
                 (case regenerate onState lst (NodeIterator lib t origin)
                         (keys result) (vals result) s of
                    Inl err \<Rightarrow> Inl err
                  | Inr (tmore, s') \<Rightarrow> Inr ((\<not> tmore \<and> \<not> diskMore result, lst), s'))))"

text \<open>
  The callback that records its calls, used to read off the sequence of callbacks of a
  range step.
\<close>

type_synonym event = "bytes \<times> bytes option \<times> bool \<times> bool"

definition record_call :: "event list onStateCallback" where
  "record_call key val write delete log = Inr (log @ [(key, val, write, delete)])"

text \<open>
  The merge as the specification words it, on the trie entries up to \<open>last\<close> and the
  snapshot entries: a snapshot key below the trie key is deleted; on equal keys the trie
  value is delivered with \<open>write\<close> set when the values differ; a trie key that the
  snapshot does not have is written; the snapshot keys that are left are deleted.
\<close>

fun spec_merge :: "(bytes \<times> bytes) list \<Rightarrow> (bytes \<times> bytes) list \<Rightarrow> event list" where
  "spec_merge [] [] = []"
| "spec_merge [] ((sk, sv) # ss) = (sk, None, False, True) # spec_merge [] ss"
| "spec_merge ((tk, tv) # ts) [] = (tk, Some tv, True, False) # spec_merge ts []"
| "spec_merge ((tk, tv) # ts) ((sk, sv) # ss) =
     (if sk < tk then (sk, None, False, True) # spec_merge ((tk, tv) # ts) ss
      else if sk = tk then (tk, Some tv, sv \<noteq> tv, False) # spec_merge ts ss
      else (tk, Some tv, True, False) # spec_merge ts ((sk, sv) # ss))"

definition upTo :: "bytes option \<Rightarrow> (bytes \<times> bytes) list \<Rightarrow> (bytes \<times> bytes) list" where
  "upTo lst leaves =
     (case lst of None \<Rightarrow> leaves | Some l \<Rightarrow> takeWhile (\<lambda>(k, v). k \<le> l) leaves)"

section \<open>The generator: the main loop\<close>

text \<open>
  \<^verbatim>\<open>increaseKey\<close>: add one to the key read as a big-endian number; \<^verbatim>\<open>nil\<close> when
  the addition overflows. \<open>incRev\<close> is the loop, which runs from the last byte to the
  first, on the reversed key.
\<close>

fun incRev :: "bytes \<Rightarrow> bytes option" where
  "incRev [] = None"
| "incRev (b # bs) =
     (if b + 1 \<noteq> 0 then Some ((b + 1) # bs)
      else map_option ((#) (b + 1)) (incRev bs))"

definition increaseKey :: "bytes option \<Rightarrow> bytes option" where
  "increaseKey key =
     (case key of None \<Rightarrow> None | Some k \<Rightarrow> map_option rev (incRev (rev k)))"

text \<open>
  The first lines of \<^verbatim>\<open>generate\<close>: the account marker and the first account range.
  \<^verbatim>\<open>len\<close> of a nil slice is 0. The slice expression \<^verbatim>\<open>dl.genMarker[:32]\<close> on a
  shorter marker is taken to panic (Go allows it up to the capacity of the slice, which
  the model does not track).
\<close>

definition generateInit :: "bytes option \<Rightarrow> error + (bytes option \<times> int)" where
  "generateInit marker =
     (case marker of
        None \<Rightarrow> Inr (None, accountCheckRange)
      | Some m \<Rightarrow>
          if length m > 0 then
            (if length m < HashLength then Inl Panic
             else Inr (Some (take HashLength m), 1))
          else Inr (None, accountCheckRange))"

text \<open>
  The generator's view of the disk layer: the marker, whether \<^verbatim>\<open>genPending\<close> is still
  open, the progress record last written to disk, and the rest of the world \<open>'w\<close>
  (database, write batch, statistics).
\<close>

record journalGenerator =
  Done :: bool
  Marker :: "bytes option"

definition journalProgress :: "bytes option \<Rightarrow> journalGenerator" where
  "journalProgress marker = \<lparr>Done = (marker = None), Marker = marker\<rparr>"

record 'w genState =
  genMarker :: "bytes option"
  genPendingOpen :: bool
  persisted :: "journalGenerator option"
  world :: "'w"

text \<open>
  One pass of the account loop is \<^verbatim>\<open>dl.generateRange(dl.root, SnapshotAccountPrefix,
  "account", accOrigin, accountRange, stats, onAccount, FullAccountRLP)\<close>; the main
  loop takes it as the parameter \<open>pass\<close>, a function of the origin, the range and the
  state, which returns an error or \<open>(exhausted, last)\<close> and the new state.

  The loop itself may run for ever when no pass ever reports the end, so it is a partial
  function: \<open>None\<close> is "does not return". \<open>Inl\<close> is the return after an error (the
  generator then waits for the abort signal), \<open>Inr\<close> is leaving the loop by
  \<^verbatim>\<open>break\<close>.
\<close>

partial_function (option) mainLoop ::
  "(bytes option \<Rightarrow> int \<Rightarrow> 'w genState \<Rightarrow> error + ((bool \<times> bytes option) \<times> 'w genState)) \<Rightarrow>
   bytes option \<Rightarrow> int \<Rightarrow> 'w genState \<Rightarrow> (error + 'w genState) option" where
  "mainLoop pass accOrigin accountRange st =
     (case pass accOrigin accountRange st of
        Inl err \<Rightarrow> Some (Inl err)
      | Inr ((exhausted, lst), st') \<Rightarrow>
          if exhausted then Some (Inr st')
          else (case increaseKey lst of
                  None \<Rightarrow> Some (Inr st')
                | Some accOrigin' \<Rightarrow> mainLoop pass (Some accOrigin') accountCheckRange st'))"

text \<open>
  The same loop with a bound on the number of passes: \<open>None\<close> is "not finished
  within \<open>n\<close> passes". It is used to say when the loop returns.
\<close>

fun runPasses ::
  "(bytes option \<Rightarrow> int \<Rightarrow> 'w genState \<Rightarrow> error + ((bool \<times> bytes option) \<times> 'w genState)) \<Rightarrow>
   nat \<Rightarrow> bytes option \<Rightarrow> int \<Rightarrow> 'w genState \<Rightarrow> (error + 'w genState) option" where
  "runPasses pass 0 accOrigin accountRange st = None"
| "runPasses pass (Suc n) accOrigin accountRange st =
     (case pass accOrigin accountRange st of
        Inl err \<Rightarrow> Some (Inl err)
      | Inr ((exhausted, lst), st') \<Rightarrow>
          if exhausted then Some (Inr st')
          else (case increaseKey lst of
                  None \<Rightarrow> Some (Inr st')
                | Some accOrigin' \<Rightarrow> runPasses pass n (Some accOrigin') accountCheckRange st'))"

text \<open>
  After the loop: journal the progress with a nil marker, write the batch
  (\<open>batchWrite\<close>, which may fail), and on success set the marker to nil and close
  \<^verbatim>\<open>genPending\<close>.
\<close>

definition finish :: "('w \<Rightarrow> error + 'w) \<Rightarrow> 'w genState \<Rightarrow> error + 'w genState" where
  "finish batchWrite st =
     (case batchWrite (world st) of
        Inl err \<Rightarrow> Inl err
      | Inr w \<Rightarrow>
          Inr (st\<lparr>world := w, persisted := Some (journalProgress None),
                   genMarker := None, genPendingOpen := False\<rparr>))"

definition generate ::
  "(bytes option \<Rightarrow> int \<Rightarrow> 'w genState \<Rightarrow> error + ((bool \<times> bytes option) \<times> 'w genState)) \<Rightarrow>
   ('w \<Rightarrow> error + 'w) \<Rightarrow> 'w genState \<Rightarrow> (error + 'w genState) option" where
  "generate pass batchWrite st =
     (case generateInit (genMarker st) of
        Inl err \<Rightarrow> Some (Inl err)
      | Inr (accMarker, accountRange) \<Rightarrow>
          (case mainLoop pass accMarker accountRange st of
             None \<Rightarrow> None
           | Some (Inl err) \<Rightarrow> Some (Inl err)
           | Some (Inr st') \<Rightarrow> Some (finish batchWrite st')))"

section \<open>Diff layers\<close>

text \<open>
  The Bloom filter library is an external collaborator. A filter is the set of the
  positions of its bits that are set: \<^verbatim>\<open>Copy\<close> is the identity, \<^verbatim>\<open>UnionInPlace\<close> is
  the union of the bit sets, and an item is "maybe present" when all of its bits are
  set. Which bits a 64-bit mini hash sets is the parameter \<open>bloomBits\<close>; the offset
  drawn at program start is the parameter \<open>bloomHasherOffset\<close>.
\<close>

type_synonym filter = "nat set"

record bloomParams =
  bloomHasherOffset :: nat
  bloomBits :: "64 word \<Rightarrow> nat set"

definition Sum64 :: "bloomParams \<Rightarrow> bytes \<Rightarrow> 64 word" where
  "Sum64 bp h = word_rcat (take 8 (drop (bloomHasherOffset bp) h))"

definition accountBloomHasher :: "bloomParams \<Rightarrow> bytes \<Rightarrow> 64 word" where
  "accountBloomHasher bp h = Sum64 bp h"

definition storageBloomHasher :: "bloomParams \<Rightarrow> bytes \<Rightarrow> bytes \<Rightarrow> 64 word" where
  "storageBloomHasher bp h0 h1 = Sum64 bp h0 XOR Sum64 bp h1"

definition Contains :: "bloomParams \<Rightarrow> filter \<Rightarrow> 64 word \<Rightarrow> bool" where
  "Contains bp f x = (bloomBits bp x \<subseteq> f)"

definition UnionInPlace :: "filter \<Rightarrow> filter \<Rightarrow> filter" where
  "UnionInPlace f g = f \<union> g"

text \<open>
  The disk layer's read operations are not part of the sources; a disk layer is given
  by what its two reads return.
\<close>

record diskLayer =
  diskAccountRLP :: "bytes \<Rightarrow> error + bytes"
  diskStorage :: "bytes \<Rightarrow> bytes \<Rightarrow> error + bytes"

text \<open>
  Diff layers are objects that are shared and mutated (\<^verbatim>\<open>flatten\<close> writes into the
  parent), so they live in a store: a list of layers, a reference being an index, and
  allocation appending to the list. A parent is either the disk layer or a reference to
  a diff layer.

  Go maps are references as well: \<^verbatim>\<open>flatten\<close> writes into the map objects of the
  parent, hands the same objects to the layer it returns, and puts inner maps of the
  child into the outer map of the parent. So the maps live in a store of their own,
  with one family of objects for each of the two map types: \<open>flatMap\<close> for
  \<^verbatim>\<open>map[common.Hash][]byte\<close> (the account maps and the inner storage maps have this
  same type, so one object may serve as both) and \<open>nestedMap\<close> for
  \<^verbatim>\<open>map[common.Hash]map[common.Hash][]byte\<close>, whose entries hold the reference of an
  inner map, or \<open>None\<close> for a nil inner map. A field of map type holds a reference,
  or \<open>None\<close> for a nil map: reading a nil map finds nothing, ranging over it does
  nothing, and writing into it panics. None of the functions below allocates a map.
  A returned \<^verbatim>\<open>[]byte\<close> that is nil is the empty list. \<^verbatim>\<open>storageList\<close> is written by
  none of the functions below and is kept by value. The locks are left out.
\<close>

datatype snapshot = DiskLayer diskLayer | DiffLayer nat

record mapStore =
  flatMap :: "nat \<Rightarrow> (bytes \<rightharpoonup> bytes)"
  nestedMap :: "nat \<Rightarrow> (bytes \<rightharpoonup> nat option)"

text \<open>
  The order in which \<^verbatim>\<open>range\<close> yields the keys of a map is not fixed by the language.
  It is a parameter: a function from the content of a map to the list of its keys.
  The loops below go through that list; the entry of a key is read when the key is
  reached, and a key that the map does not hold is skipped.
\<close>

record rangeOrder =
  flatOrder :: "(bytes \<rightharpoonup> bytes) \<Rightarrow> bytes list"
  nestedOrder :: "(bytes \<rightharpoonup> nat option) \<Rightarrow> bytes list"

record diffLayer =
  origin :: "diskLayer option"
  parent :: snapshot
  memory :: "64 word"
  root :: bytes
  stale :: bool
  accountList :: "bytes list option"
  accountData :: "nat option"
  storageList :: "bytes \<rightharpoonup> bytes list"
  storageData :: "nat option"
  diffed :: "filter option"
  cumulative :: "filter option"

type_synonym heap = "diffLayer list"

definition deref :: "heap \<Rightarrow> nat \<Rightarrow> diffLayer option" where
  "deref h r = (if r < length h then Some (h ! r) else None)"

text \<open>
  The loop of \<^verbatim>\<open>Prepare\<close>. The variable \<^verbatim>\<open>layer\<close> is set to \<^verbatim>\<open>dl\<close> before the
  loop and the body never assigns it, so every iteration looks at the same parent. The
  loop may not return: it is a partial function, \<open>None\<close> being "does not return".
\<close>

partial_function (option) prepareLoop :: "heap \<Rightarrow> nat \<Rightarrow> filter \<Rightarrow> (error + filter) option" where
  "prepareLoop h layer cumul =
     (case deref h layer of
        None \<Rightarrow> Some (Inl Panic)
      | Some l \<Rightarrow>
          (case parent l of
             DiffLayer p \<Rightarrow>
               (case deref h p of
                  None \<Rightarrow> Some (Inl Panic)
                | Some pl \<Rightarrow>
                    (case diffed pl of
                       None \<Rightarrow> Some (Inl Panic)
                     | Some d \<Rightarrow> prepareLoop h layer (UnionInPlace cumul d)))
           | DiskLayer d \<Rightarrow> Some (Inr cumul)))"

definition Prepare :: "heap \<Rightarrow> nat \<Rightarrow> diskLayer option \<Rightarrow> (error + heap) option" where
  "Prepare h r org =
     (case deref h r of
        None \<Rightarrow> Some (Inl Panic)
      | Some dl \<Rightarrow>
          (case diffed dl of
             None \<Rightarrow> Some (Inl Panic)
           | Some d \<Rightarrow>
               (case prepareLoop h r d of
                  None \<Rightarrow> None
                | Some (Inl err) \<Rightarrow> Some (Inl err)
                | Some (Inr c) \<Rightarrow>
                    Some (Inr (h[r := dl\<lparr>cumulative := Some c, origin := org\<rparr>])))))"

text \<open>
  What the specification says \<^verbatim>\<open>Prepare\<close> computes: the union of the \<^verbatim>\<open>diffed\<close>
  filters of the layer and of each of its first \<open>n\<close> ancestor diff layers.
\<close>

fun chainUnion :: "heap \<Rightarrow> nat \<Rightarrow> nat \<Rightarrow> filter" where
  "chainUnion h r 0 = (case deref h r of Some l \<Rightarrow> (case diffed l of Some d \<Rightarrow> d | None \<Rightarrow> {}) | None \<Rightarrow> {})"
| "chainUnion h r (Suc n) =
     (case deref h r of
        Some l \<Rightarrow>
          (case diffed l of Some d \<Rightarrow> d | None \<Rightarrow> {}) \<union>
          (case parent l of DiffLayer p \<Rightarrow> chainUnion h p n | DiskLayer d \<Rightarrow> {})
      | None \<Rightarrow> {})"

text \<open>
  \<^verbatim>\<open>accountRLP\<close> and \<^verbatim>\<open>storage\<close>, the reads that skip the Bloom filter and walk the
  parent chain (the \<^verbatim>\<open>depth\<close> argument only feeds a metric), and the exported reads
  \<^verbatim>\<open>AccountRLP\<close> and \<^verbatim>\<open>Storage\<close>, which probe \<^verbatim>\<open>cumulative\<close> first.
\<close>

partial_function (option) accountRLP ::
  "heap \<Rightarrow> mapStore \<Rightarrow> nat \<Rightarrow> bytes \<Rightarrow> (error + bytes) option" where
  "accountRLP h ms r hash =
     (case deref h r of
        None \<Rightarrow> Some (Inl Panic)
      | Some dl \<Rightarrow>
          if stale dl then Some (Inl ErrSnapshotStale)
          else
            (case (case accountData dl of
                     None \<Rightarrow> None
                   | Some accounts \<Rightarrow> flatMap ms accounts hash) of
               Some data \<Rightarrow> Some (Inr data)
             | None \<Rightarrow>
                 (case parent dl of
                    DiffLayer p \<Rightarrow> accountRLP h ms p hash
                  | DiskLayer d \<Rightarrow> Some (diskAccountRLP d hash))))"

definition AccountRLP ::
  "bloomParams \<Rightarrow> heap \<Rightarrow> mapStore \<Rightarrow> nat \<Rightarrow> bytes \<Rightarrow> (error + bytes) option" where
  "AccountRLP bp h ms r hash =
     (case deref h r of
        None \<Rightarrow> Some (Inl Panic)
      | Some dl \<Rightarrow>
          (case cumulative dl of
             None \<Rightarrow> Some (Inl Panic)
           | Some c \<Rightarrow>
               if \<not> Contains bp c (accountBloomHasher bp hash) then
                 (case origin dl of
                    None \<Rightarrow> Some (Inl Panic)
                  | Some d \<Rightarrow> Some (diskAccountRLP d hash))
               else accountRLP h ms r hash))"

partial_function (option) storage ::
  "heap \<Rightarrow> mapStore \<Rightarrow> nat \<Rightarrow> bytes \<Rightarrow> bytes \<Rightarrow> (error + bytes) option" where
  "storage h ms r accountHash storageHash =
     (case deref h r of
        None \<Rightarrow> Some (Inl Panic)
      | Some dl \<Rightarrow>
          if stale dl then Some (Inl ErrSnapshotStale)
          else
            (case (case storageData dl of
                     None \<Rightarrow> None
                   | Some storages \<Rightarrow>
                       (case nestedMap ms storages accountHash of
                          None \<Rightarrow> None
                        | Some None \<Rightarrow> Some []
                        | Some (Some inner) \<Rightarrow> flatMap ms inner storageHash)) of
               Some data \<Rightarrow> Some (Inr data)
             | None \<Rightarrow>
                 (case parent dl of
                    DiffLayer p \<Rightarrow> storage h ms p accountHash storageHash
                  | DiskLayer d \<Rightarrow> Some (diskStorage d accountHash storageHash))))"

definition Storage ::
  "bloomParams \<Rightarrow> heap \<Rightarrow> mapStore \<Rightarrow> nat \<Rightarrow> bytes \<Rightarrow> bytes \<Rightarrow> (error + bytes) option" where
  "Storage bp h ms r accountHash storageHash =
     (case deref h r of
        None \<Rightarrow> Some (Inl Panic)
      | Some dl \<Rightarrow>
          (case cumulative dl of
             None \<Rightarrow> Some (Inl Panic)
           | Some c \<Rightarrow>
               if \<not> Contains bp c (storageBloomHasher bp accountHash storageHash) then
                 (case origin dl of
                    None \<Rightarrow> Some (Inl Panic)
                  | Some d \<Rightarrow> Some (diskStorage d accountHash storageHash))
               else storage h ms r accountHash storageHash))"

text \<open>
  \<^verbatim>\<open>flatten\<close>. The loop \<^verbatim>\<open>for hash, data := range src { dst[hash] = data }\<close> occurs
  twice in it: from the account map of the layer into that of the parent, and from an
  inner map of the layer into the inner map of the parent. \<open>hashes\<close> is what is left
  of the keys of \<open>src\<close>; \<open>dst\<close> is \<open>None\<close> for a nil map.
\<close>

fun copyLoop :: "nat \<Rightarrow> nat option \<Rightarrow> bytes list \<Rightarrow> mapStore \<Rightarrow> error + mapStore" where
  "copyLoop src dst [] ms = Inr ms"
| "copyLoop src dst (hash # hashes) ms =
     (case flatMap ms src hash of
        None \<Rightarrow> copyLoop src dst hashes ms
      | Some data \<Rightarrow>
          (case dst of
             None \<Rightarrow> Inl Panic
           | Some d \<Rightarrow>
               copyLoop src dst hashes
                 (ms\<lparr>flatMap := (flatMap ms)(d := (flatMap ms d)(hash \<mapsto> data))\<rparr>)))"

text \<open>
  The loop over \<^verbatim>\<open>dl.storageData\<close>. \<^verbatim>\<open>parent.storageData[accountHash]\<close> reads as nil
  for a missing account, for a nil inner map and on a nil outer map; the assignment
  \<^verbatim>\<open>parent.storageData[accountHash] = storage\<close> stores the reference of the layer's
  inner map and panics on a nil outer map. In the merging branch the slots are written
  into the inner map object of the parent, and the last assignment writes back the
  reference that was read.
\<close>

fun storageLoop ::
  "rangeOrder \<Rightarrow> nat \<Rightarrow> nat option \<Rightarrow> bytes list \<Rightarrow> mapStore \<Rightarrow> error + mapStore" where
  "storageLoop ord src dst [] ms = Inr ms"
| "storageLoop ord src dst (accountHash # rest) ms =
     (case nestedMap ms src accountHash of
        None \<Rightarrow> storageLoop ord src dst rest ms
      | Some storage' \<Rightarrow>
          (case dst of
             None \<Rightarrow> Inl Panic
           | Some d \<Rightarrow>
               (case (case nestedMap ms d accountHash of
                        None \<Rightarrow> None
                      | Some inner \<Rightarrow> inner) of
                  None \<Rightarrow>
                    storageLoop ord src dst rest
                      (ms\<lparr>nestedMap := (nestedMap ms)(d := (nestedMap ms d)(accountHash \<mapsto> storage'))\<rparr>)
                | Some comboData \<Rightarrow>
                    (case storage' of
                       None \<Rightarrow>
                         storageLoop ord src dst rest
                           (ms\<lparr>nestedMap :=
                                 (nestedMap ms)(d := (nestedMap ms d)(accountHash \<mapsto> storage'))\<rparr>)
                     | Some inner \<Rightarrow>
                         (case copyLoop inner (Some comboData)
                                 (flatOrder ord (flatMap ms inner)) ms of
                            Inl err \<Rightarrow> Inl err
                          | Inr ms' \<Rightarrow>
                              storageLoop ord src dst rest
                                (ms'\<lparr>nestedMap :=
                                       (nestedMap ms')(d := (nestedMap ms' d)
                                          (accountHash \<mapsto> Some comboData))\<rparr>))))))"

text \<open>
  The part of \<^verbatim>\<open>flatten\<close> after the recursive call: \<open>r\<close> is the layer, \<open>p\<close> the
  flattened parent. The parent is marked stale in the store of layers, the maps are
  merged in the store of maps, and the new layer is allocated at the end of the store
  of layers; it holds the map objects of the parent. When a write panics, the state
  reached by then (the parent is already stale) is not tracked.
\<close>

definition flattenInto ::
  "rangeOrder \<Rightarrow> heap \<Rightarrow> mapStore \<Rightarrow> nat \<Rightarrow> nat \<Rightarrow> error + (heap \<times> mapStore \<times> nat)" where
  "flattenInto ord h ms r p =
     (case deref h r of
        None \<Rightarrow> Inl Panic
      | Some dl \<Rightarrow>
          (case deref h p of
             None \<Rightarrow> Inl Panic
           | Some par \<Rightarrow>
               if stale par then Inl Panic
               else
                 (case (case accountData dl of
                          None \<Rightarrow> Inr ms
                        | Some accounts \<Rightarrow>
                            copyLoop accounts (accountData par)
                              (flatOrder ord (flatMap ms accounts)) ms) of
                    Inl err \<Rightarrow> Inl err
                  | Inr ms1 \<Rightarrow>
                      (case (case storageData dl of
                               None \<Rightarrow> Inr ms1
                             | Some storages \<Rightarrow>
                                 storageLoop ord storages (storageData par)
                                   (nestedOrder ord (nestedMap ms1 storages)) ms1) of
                         Inl err \<Rightarrow> Inl err
                       | Inr ms2 \<Rightarrow>
                           Inr (h[p := par\<lparr>stale := True\<rparr>]
                                  @ [\<lparr>origin = origin par, parent = parent par,
                                      memory = memory par + memory dl, root = root dl,
                                      stale = False, accountList = accountList par,
                                      accountData = accountData par,
                                      storageList = storageList par,
                                      storageData = storageData par,
                                      diffed = diffed dl, cumulative = None\<rparr>],
                                ms2, length h)))))"

partial_function (option) flatten ::
  "rangeOrder \<Rightarrow> heap \<Rightarrow> mapStore \<Rightarrow> nat \<Rightarrow> (error + (heap \<times> mapStore \<times> nat)) option" where
  "flatten ord h ms r =
     (case deref h r of
        None \<Rightarrow> Some (Inl Panic)
      | Some dl \<Rightarrow>
          (case parent dl of
             DiskLayer d \<Rightarrow> Some (Inr (h, ms, r))
           | DiffLayer p \<Rightarrow>
               Option.bind (flatten ord h ms p)
                 (\<lambda>res. case res of
                    Inl err \<Rightarrow> Some (Inl err)
                  | Inr (h1, ms1, p1) \<Rightarrow> Some (flattenInto ord h1 ms1 r p1))))"

text \<open>
  A layer has a parent chain of \<open>n\<close> diff layers above the disk layer.
\<close>

fun chain :: "heap \<Rightarrow> nat \<Rightarrow> nat \<Rightarrow> bool" where
  "chain h r 0 =
     (case deref h r of
        None \<Rightarrow> False
      | Some dl \<Rightarrow> (case parent dl of DiskLayer d \<Rightarrow> True | DiffLayer p \<Rightarrow> False))"
| "chain h r (Suc n) =
     (case deref h r of
        None \<Rightarrow> False
      | Some dl \<Rightarrow> (case parent dl of DiskLayer d \<Rightarrow> False | DiffLayer p \<Rightarrow> chain h p n))"

section \<open>The scoped journal\<close>

text \<open>
  Accounts as the journal sees them. \<^verbatim>\<open>types.StateAccount\<close> and the empty code hash
  come from packages outside the sources; the account is a record of its four fields
  and \<open>EmptyCodeHash\<close> is the Keccak-256 hash of the empty string.
\<close>

record StateAccount =
  Nonce :: "64 word"
  Balance :: "256 word"
  Root :: bytes
  CodeHash :: bytes

definition EmptyCodeHash :: bytes where
  "EmptyCodeHash =
     [0xc5, 0xd2, 0x46, 0x01, 0x86, 0xf7, 0x23, 0x3c, 0x92, 0x7e, 0x7d, 0xb2, 0xdc, 0xc7, 0x03, 0xc0,
      0xe5, 0x00, 0xb6, 0x53, 0xca, 0x82, 0x27, 0x3b, 0x7b, 0xfa, 0xd8, 0x04, 0x5d, 0x85, 0xa4, 0x70]"

definition BytesToHash :: "bytes \<Rightarrow> bytes" where
  "BytesToHash b =
     (let b' = drop (length b - HashLength) b
      in replicate (HashLength - length b') 0 @ b')"

record journalAccount =
  nonce :: "64 word"
  balance :: "256 word"
  codeHash :: "bytes option"
  destructed :: bool

text \<open>
  A scope of the journal. Its Go maps are association lists with distinct keys (a loop
  over a map visits every key once; the loops of \<^verbatim>\<open>revert\<close> touch a different part of
  the state for every key), under an \<open>option\<close> where the code distinguishes the nil map:
  \<^verbatim>\<open>newScopedJournal\<close> sets only \<^verbatim>\<open>refund\<close>, so the three maps start as nil.
  The refund is the 64-bit pattern (\<^verbatim>\<open>int64(prev)\<close> and \<^verbatim>\<open>uint64(j.refund)\<close> keep the
  bits), \<open>- 1\<close> being the sentinel.
\<close>

record scopedJournal =
  accountChanges :: "(bytes \<times> journalAccount option) list option"
  refund :: "64 word"
  logs :: "bytes list"
  accessListAddresses :: "bytes list"
  accessListAddrSlots :: "(bytes \<times> bytes) list"
  storageChanges :: "(bytes \<times> (bytes \<times> bytes) list) list option"
  tStorageChanges :: "(bytes \<times> (bytes \<times> bytes) list) list option"

definition newScopedJournal :: scopedJournal where
  "newScopedJournal =
     \<lparr>accountChanges = None, refund = - 1, logs = [], accessListAddresses = [],
      accessListAddrSlots = [], storageChanges = None, tStorageChanges = None\<rparr>"

definition JournalRefund :: "scopedJournal \<Rightarrow> 64 word \<Rightarrow> scopedJournal" where
  "JournalRefund j prev = (if refund j = - 1 then j\<lparr>refund := prev\<rparr> else j)"

text \<open>
  \<^verbatim>\<open>scopedJournal.journalAccountChange\<close>: the assignment into
  \<^verbatim>\<open>j.accountChanges\<close> panics while that map is nil.
\<close>

definition scopedAccountChange ::
  "scopedJournal \<Rightarrow> bytes \<Rightarrow> StateAccount option \<Rightarrow> bool \<Rightarrow> error + (scopedJournal \<times> bool)" where
  "scopedAccountChange j address account destr =
     (case (case accountChanges j of None \<Rightarrow> None | Some m \<Rightarrow> map_of m address) of
        Some known \<Rightarrow> Inr (j, False)
      | None \<Rightarrow>
          (case accountChanges j of
             None \<Rightarrow> Inl Panic
           | Some m \<Rightarrow>
               let ja = (case account of
                           None \<Rightarrow> None
                         | Some acc \<Rightarrow>
                             Some \<lparr>nonce = Nonce acc, balance = Balance acc,
                                   codeHash = (if CodeHash acc \<noteq> EmptyCodeHash
                                               then Some (CodeHash acc) else None),
                                   destructed = destr\<rparr>)
               in Inr (j\<lparr>accountChanges := Some (m @ [(address, ja)])\<rparr>, True)))"

definition journalLog :: "scopedJournal \<Rightarrow> bytes \<Rightarrow> scopedJournal" where
  "journalLog j txHash = j\<lparr>logs := logs j @ [txHash]\<rparr>"

definition journalAccessListAddAccount :: "scopedJournal \<Rightarrow> bytes \<Rightarrow> scopedJournal" where
  "journalAccessListAddAccount j addr = j\<lparr>accessListAddresses := accessListAddresses j @ [addr]\<rparr>"

definition journalAccessListAddSlot :: "scopedJournal \<Rightarrow> bytes \<Rightarrow> bytes \<Rightarrow> scopedJournal" where
  "journalAccessListAddSlot j addr slot =
     j\<lparr>accessListAddrSlots := accessListAddrSlots j @ [(addr, slot)]\<rparr>"

text \<open>
  The shared body of \<^verbatim>\<open>journalSetState\<close> and \<^verbatim>\<open>journalSetTransientState\<close>: make the
  outer map if it is nil, make the inner map if the address is new, and record the
  previous value unless the slot already has one.
\<close>

definition recordSlot ::
  "(bytes \<times> (bytes \<times> bytes) list) list option \<Rightarrow> bytes \<Rightarrow> bytes \<Rightarrow> bytes \<Rightarrow>
   (bytes \<times> (bytes \<times> bytes) list) list" where
  "recordSlot changesMap addr key prev =
     (let m = (case changesMap of None \<Rightarrow> [] | Some m0 \<Rightarrow> m0);
          changes = (case map_of m addr of None \<Rightarrow> [] | Some c \<Rightarrow> c);
          changes' = (case map_of changes key of
                        None \<Rightarrow> changes @ [(key, prev)]
                      | Some old \<Rightarrow> changes)
      in (case map_of m addr of
            None \<Rightarrow> m @ [(addr, changes')]
          | Some c \<Rightarrow> map (\<lambda>(a, c0). if a = addr then (a, changes') else (a, c0)) m))"

definition journalSetState :: "scopedJournal \<Rightarrow> bytes \<Rightarrow> bytes \<Rightarrow> bytes \<Rightarrow> scopedJournal" where
  "journalSetState j addr key prev =
     j\<lparr>storageChanges := Some (recordSlot (storageChanges j) addr key prev)\<rparr>"

definition journalSetTransientState :: "scopedJournal \<Rightarrow> bytes \<Rightarrow> bytes \<Rightarrow> bytes \<Rightarrow> scopedJournal" where
  "journalSetTransientState j addr key prev =
     j\<lparr>tStorageChanges := Some (recordSlot (tStorageChanges j) addr key prev)\<rparr>"

text \<open>
  Modelled from the spec: the state that a revert writes to (\<^verbatim>\<open>StateDB\<close>, its state
  objects, its access list) is not part of the sources. The specification describes it
  as an in-memory map of state objects with a refund counter, logs per transaction, an
  access list and transient storage; the model keeps the fields that \<^verbatim>\<open>revert\<close>
  touches. The access list is a set of addresses and a set of (address, slot) pairs, and
  deleting from it removes the element.
\<close>

record stateObject =
  account :: StateAccount
  code :: "bytes option"
  selfDestructed :: bool
  slots :: "bytes \<Rightarrow> bytes"

record StateDB =
  stateObjects :: "bytes \<rightharpoonup> stateObject"
  stateObjectsDirty :: "bytes set"
  sdbRefund :: "64 word"
  sdbLogs :: "bytes \<rightharpoonup> bytes list"
  logSize :: "64 word"
  accessAddresses :: "bytes set"
  accessSlots :: "(bytes \<times> bytes) set"
  transientStorage :: "bytes \<Rightarrow> bytes \<Rightarrow> bytes"

text \<open>
  Modelled from the spec: \<^verbatim>\<open>getStateObject\<close> and the setters of a state object are not
  part of the sources. \<open>getStateObject\<close> is the lookup in the map of state objects,
  \<^verbatim>\<open>nil\<close> for a missing object (calling a setter on it panics); each setter writes
  the field it names.
\<close>

definition getStateObject :: "StateDB \<Rightarrow> bytes \<Rightarrow> stateObject option" where
  "getStateObject s addr = stateObjects s addr"

definition setNonce :: "stateObject \<Rightarrow> 64 word \<Rightarrow> stateObject" where
  "setNonce obj n = obj\<lparr>account := (account obj)\<lparr>Nonce := n\<rparr>\<rparr>"

definition setBalance :: "stateObject \<Rightarrow> 256 word \<Rightarrow> stateObject" where
  "setBalance obj b = obj\<lparr>account := (account obj)\<lparr>Balance := b\<rparr>\<rparr>"

definition setCode :: "stateObject \<Rightarrow> bytes \<Rightarrow> bytes option \<Rightarrow> stateObject" where
  "setCode obj h c = obj\<lparr>account := (account obj)\<lparr>CodeHash := h\<rparr>, code := c\<rparr>"

definition setState :: "stateObject \<Rightarrow> bytes \<Rightarrow> bytes \<Rightarrow> stateObject" where
  "setState obj key val = obj\<lparr>slots := (slots obj)(key := val)\<rparr>"

definition setTransientState :: "StateDB \<Rightarrow> bytes \<Rightarrow> bytes \<Rightarrow> bytes \<Rightarrow> StateDB" where
  "setTransientState s addr key val =
     s\<lparr>transientStorage := (transientStorage s)(addr := (transientStorage s addr)(key := val))\<rparr>"

text \<open>
  \<^verbatim>\<open>scopedJournal.revert\<close>, one function per loop, in the source's order. The
  counter map \<^verbatim>\<open>dirties\<close> reads 0 for a missing address.
\<close>

type_synonym dirtyMap = "bytes \<rightharpoonup> int"

definition decDirty :: "dirtyMap \<Rightarrow> bytes \<Rightarrow> dirtyMap" where
  "decDirty ds addr =
     (let n = (case ds addr of None \<Rightarrow> 0 | Some c \<Rightarrow> c) - 1
      in if n = 0 then ds(addr := None) else ds(addr \<mapsto> n))"

definition revertAccount :: "stateObject \<Rightarrow> journalAccount \<Rightarrow> stateObject" where
  "revertAccount obj d =
     (let obj1 = setNonce obj (nonce d);
          obj2 = (case codeHash d of
                    None \<Rightarrow>
                      if CodeHash (account obj1) \<noteq> EmptyCodeHash
                      then setCode obj1 EmptyCodeHash None else obj1
                  | Some journalHash \<Rightarrow>
                      if CodeHash (account obj1) \<noteq> journalHash
                      then setCode obj1 (BytesToHash journalHash) None else obj1);
          obj3 = setBalance obj2 (balance d)
      in obj3\<lparr>selfDestructed := destructed d\<rparr>)"

fun revertAccounts ::
  "(bytes \<times> journalAccount option) list \<Rightarrow> StateDB \<Rightarrow> dirtyMap \<Rightarrow> error + (StateDB \<times> dirtyMap)" where
  "revertAccounts [] s ds = Inr (s, ds)"
| "revertAccounts ((addr, None) # rest) s ds =
     revertAccounts rest
       (s\<lparr>stateObjects := (stateObjects s)(addr := None),
          stateObjectsDirty := stateObjectsDirty s - {addr}\<rparr>) ds"
| "revertAccounts ((addr, Some d) # rest) s ds =
     (case getStateObject s addr of
        None \<Rightarrow> Inl Panic
      | Some obj \<Rightarrow>
          revertAccounts rest
            (s\<lparr>stateObjects := (stateObjects s)(addr \<mapsto> revertAccount obj d)\<rparr>)
            (decDirty ds addr))"

fun revertLogs :: "bytes list \<Rightarrow> StateDB \<Rightarrow> error + StateDB" where
  "revertLogs [] s = Inr s"
| "revertLogs (txhash # rest) s =
     (let ls = (case sdbLogs s txhash of None \<Rightarrow> [] | Some l \<Rightarrow> l)
      in if length ls = 1 then
           revertLogs rest (s\<lparr>sdbLogs := (sdbLogs s)(txhash := None), logSize := logSize s - 1\<rparr>)
         else if length ls = 0 then Inl Panic
         else revertLogs rest
                (s\<lparr>sdbLogs := (sdbLogs s)(txhash \<mapsto> butlast ls), logSize := logSize s - 1\<rparr>))"

fun revertSlots :: "(bytes \<times> bytes) list \<Rightarrow> stateObject \<Rightarrow> stateObject" where
  "revertSlots [] obj = obj"
| "revertSlots ((key, val) # rest) obj = revertSlots rest (setState obj key val)"

fun revertStorage :: "(bytes \<times> (bytes \<times> bytes) list) list \<Rightarrow> StateDB \<Rightarrow> error + StateDB" where
  "revertStorage [] s = Inr s"
| "revertStorage ((addr, changes) # rest) s =
     (case getStateObject s addr of
        None \<Rightarrow> (if changes = [] then revertStorage rest s else Inl Panic)
      | Some obj \<Rightarrow>
          revertStorage rest (s\<lparr>stateObjects := (stateObjects s)(addr \<mapsto> revertSlots changes obj)\<rparr>))"

fun revertTransient :: "(bytes \<times> (bytes \<times> bytes) list) list \<Rightarrow> StateDB \<Rightarrow> StateDB" where
  "revertTransient [] s = s"
| "revertTransient ((addr, changes) # rest) s =
     revertTransient rest (fold (\<lambda>(key, val) s'. setTransientState s' addr key val) changes s)"

definition revert :: "scopedJournal \<Rightarrow> StateDB \<Rightarrow> dirtyMap \<Rightarrow> error + (StateDB \<times> dirtyMap)" where
  "revert j s ds =
     (let s1 = (if refund j \<noteq> - 1 then s\<lparr>sdbRefund := refund j\<rparr> else s)
      in case revertAccounts (case accountChanges j of None \<Rightarrow> [] | Some m \<Rightarrow> m) s1 ds of
           Inl err \<Rightarrow> Inl err
         | Inr (s2, ds') \<Rightarrow>
             (case revertLogs (logs j) s2 of
                Inl err \<Rightarrow> Inl err
              | Inr s3 \<Rightarrow>
                  let s4 = s3\<lparr>accessSlots := accessSlots s3 - set (accessListAddrSlots j)\<rparr>;
                      s5 = s4\<lparr>accessAddresses := accessAddresses s4 - set (accessListAddresses j)\<rparr>
                  in (case revertStorage (case storageChanges j of None \<Rightarrow> [] | Some m \<Rightarrow> m) s5 of
                        Inl err \<Rightarrow> Inl err
                      | Inr s6 \<Rightarrow>
                          Inr (revertTransient
                                 (case tStorageChanges j of None \<Rightarrow> [] | Some m \<Rightarrow> m) s6,
                               ds'))))"

text \<open>The journal: the stack of scopes and the counter of dirty addresses.\<close>

record sparseJournal =
  entries :: "scopedJournal list"
  dirties :: dirtyMap

definition newSparseJournal :: sparseJournal where
  "newSparseJournal = \<lparr>entries = [], dirties = Map.empty\<rparr>"

definition Snapshot :: "sparseJournal \<Rightarrow> int \<times> sparseJournal" where
  "Snapshot j = (int (length (entries j)), j\<lparr>entries := entries j @ [newScopedJournal]\<rparr>)"

text \<open>
  The loop of \<^verbatim>\<open>RevertToSnapshot\<close>, \<^verbatim>\<open>for i := id; i > 0; i--\<close>, by recursion
  on \<open>i\<close>; reading \<^verbatim>\<open>j.entries[i]\<close> out of range panics.
\<close>

fun revertLoop :: "nat \<Rightarrow> scopedJournal list \<Rightarrow> StateDB \<Rightarrow> dirtyMap \<Rightarrow> error + (StateDB \<times> dirtyMap)" where
  "revertLoop 0 es s ds = Inr (s, ds)"
| "revertLoop (Suc i) es s ds =
     (if Suc i < length es then
        (case revert (es ! Suc i) s ds of
           Inl err \<Rightarrow> Inl err
         | Inr (s', ds') \<Rightarrow> revertLoop i es s' ds')
      else Inl Panic)"

text \<open>
  \<^verbatim>\<open>RevertToSnapshot\<close>. The identifier \<open>rid\<close> (\<^verbatim>\<open>id\<close> in the source) is a Go
  \<^verbatim>\<open>int\<close>; for a negative one the loop
  does not run and the slice expression \<^verbatim>\<open>j.entries[:id]\<close> panics.
\<close>

definition RevertToSnapshot :: "int \<Rightarrow> sparseJournal \<Rightarrow> StateDB \<Rightarrow> error + (sparseJournal \<times> StateDB)" where
  "RevertToSnapshot rid j s =
     (if rid \<ge> int (length (entries j)) then Inl Panic
      else
        (case revertLoop (nat rid) (entries j) s (dirties j) of
           Inl err \<Rightarrow> Inl err
         | Inr (s', ds') \<Rightarrow>
             if rid < 0 then Inl Panic
             else Inr (j\<lparr>entries := take (nat rid) (entries j), dirties := ds'\<rparr>, s')))"

text \<open>
  The recorders of the journal write into the top scope; with no scope the index
  \<^verbatim>\<open>len(j.entries)-1\<close> is out of range and the call panics.
\<close>

definition onTop :: "(scopedJournal \<Rightarrow> scopedJournal) \<Rightarrow> sparseJournal \<Rightarrow> error + sparseJournal" where
  "onTop f j =
     (if entries j = [] then Inl Panic
      else Inr (j\<lparr>entries := (entries j)[length (entries j) - 1 := f (entries j ! (length (entries j) - 1))]\<rparr>))"

definition JournalLog :: "sparseJournal \<Rightarrow> bytes \<Rightarrow> error + sparseJournal" where
  "JournalLog j txHash = onTop (\<lambda>e. journalLog e txHash) j"

definition JournalAccessListAddAccount :: "sparseJournal \<Rightarrow> bytes \<Rightarrow> error + sparseJournal" where
  "JournalAccessListAddAccount j addr = onTop (\<lambda>e. journalAccessListAddAccount e addr) j"

definition JournalAccessListAddSlot :: "sparseJournal \<Rightarrow> bytes \<Rightarrow> bytes \<Rightarrow> error + sparseJournal" where
  "JournalAccessListAddSlot j addr slot = onTop (\<lambda>e. journalAccessListAddSlot e addr slot) j"

definition JournalSetState :: "sparseJournal \<Rightarrow> bytes \<Rightarrow> bytes \<Rightarrow> bytes \<Rightarrow> error + sparseJournal" where
  "JournalSetState j addr key prev = onTop (\<lambda>e. journalSetState e addr key prev) j"

definition JournalSetTransientState :: "sparseJournal \<Rightarrow> bytes \<Rightarrow> bytes \<Rightarrow> bytes \<Rightarrow> error + sparseJournal" where
  "JournalSetTransientState j addr key prev = onTop (\<lambda>e. journalSetTransientState e addr key prev) j"

definition journalAccountChange ::
  "sparseJournal \<Rightarrow> bytes \<Rightarrow> StateAccount option \<Rightarrow> bool \<Rightarrow> error + sparseJournal" where
  "journalAccountChange j addr acc destr =
     (if entries j = [] then Inl Panic
      else
        (case scopedAccountChange (entries j ! (length (entries j) - 1)) addr acc destr of
           Inl err \<Rightarrow> Inl err
         | Inr (e, fresh) \<Rightarrow>
             Inr (j\<lparr>entries := (entries j)[length (entries j) - 1 := e],
                    dirties := (if fresh
                                then (dirties j)(addr \<mapsto> (case dirties j addr of None \<Rightarrow> 0 | Some c \<Rightarrow> c) + 1)
                                else dirties j)\<rparr>)))"

definition JournalNonceChange ::
  "sparseJournal \<Rightarrow> bytes \<Rightarrow> StateAccount option \<Rightarrow> bool \<Rightarrow> error + sparseJournal" where
  "JournalNonceChange j addr acc destr = journalAccountChange j addr acc destr"

section \<open>Notions used in the statements\<close>

text \<open>
  Running a callback over a list of calls, stopping at the first error.
\<close>

fun deliver :: "'s onStateCallback \<Rightarrow> event list \<Rightarrow> 's \<Rightarrow> error + 's" where
  "deliver onState [] s = Inr s"
| "deliver onState ((key, val, write, delete) # es) s =
     (case onState key val write delete s of
        Inl err \<Rightarrow> Inl err
      | Inr s' \<Rightarrow> deliver onState es s')"

text \<open>
  The calls that the specification asks of a fallback, as sets: one call per trie entry,
  with \<open>write\<close> set unless the snapshot holds the same value for the key, and one
  deletion per snapshot key that the trie entries do not have.
\<close>

definition writes :: "(bytes \<times> bytes) list \<Rightarrow> (bytes \<times> bytes) list \<Rightarrow> event set" where
  "writes ts ss = (\<lambda>(k, v). (k, Some v, map_of ss k \<noteq> Some v, False)) ` set ts"

definition deletes :: "(bytes \<times> bytes) list \<Rightarrow> (bytes \<times> bytes) list \<Rightarrow> event set" where
  "deletes ts ss = (\<lambda>k. (k, None, False, True)) ` (fst ` set ss - fst ` set ts)"

text \<open>
  Layers whose parent is a diff layer: \<^verbatim>\<open>flatten\<close> never writes to the record of
  such a layer.
\<close>

definition hasDiffParent :: "diffLayer \<Rightarrow> bool" where
  "hasDiffParent dl = (case parent dl of DiffLayer p \<Rightarrow> True | DiskLayer d \<Rightarrow> False)"

text \<open>
  The content of a field of map type, by value: the accounts of an account field, the
  references of a storage field, and the storage with every inner map replaced by its
  content. A nil map reads as the empty map.
\<close>

definition accountsOf :: "mapStore \<Rightarrow> nat option \<Rightarrow> (bytes \<rightharpoonup> bytes)" where
  "accountsOf ms field = (case field of None \<Rightarrow> Map.empty | Some x \<Rightarrow> flatMap ms x)"

definition innersOf :: "mapStore \<Rightarrow> nat option \<Rightarrow> (bytes \<rightharpoonup> nat option)" where
  "innersOf ms field = (case field of None \<Rightarrow> Map.empty | Some x \<Rightarrow> nestedMap ms x)"

definition storageOf :: "mapStore \<Rightarrow> nat option \<Rightarrow> (bytes \<rightharpoonup> (bytes \<rightharpoonup> bytes) option)" where
  "storageOf ms field = (\<lambda>a. map_option (map_option (flatMap ms)) (innersOf ms field a))"

text \<open>
  The merge of the storage of two layers as the specification words it, on maps by
  value: the layer's inner map is taken whole when the parent has none for the account
  or a nil one, or when the layer's is nil, and otherwise the slots of the layer
  overwrite those of the parent.
\<close>

definition mergeStorage ::
  "(bytes \<rightharpoonup> (bytes \<rightharpoonup> bytes) option) \<Rightarrow> (bytes \<rightharpoonup> (bytes \<rightharpoonup> bytes) option) \<Rightarrow>
   (bytes \<rightharpoonup> (bytes \<rightharpoonup> bytes) option)" where
  "mergeStorage parentData childData =
     (\<lambda>accountHash.
        case childData accountHash of
          None \<Rightarrow> parentData accountHash
        | Some inner \<Rightarrow>
            (case parentData accountHash of
               None \<Rightarrow> Some inner
             | Some None \<Rightarrow> Some inner
             | Some (Some comboData) \<Rightarrow>
                 (case inner of
                    None \<Rightarrow> Some inner
                  | Some m \<Rightarrow>
                      Some (Some (\<lambda>storageHash.
                        case m storageHash of
                          Some data \<Rightarrow> Some data
                        | None \<Rightarrow> comboData storageHash)))))"

text \<open>
  The same merge on references: which inner map object the outer map of the parent
  holds for an account afterwards, given what the parent and the layer held.
\<close>

definition mergedRef :: "nat option option \<Rightarrow> nat option option \<Rightarrow> nat option option" where
  "mergedRef parentEntry childEntry =
     (case childEntry of
        None \<Rightarrow> parentEntry
      | Some storage' \<Rightarrow>
          (case parentEntry of
             Some (Some comboData) \<Rightarrow>
               (case storage' of None \<Rightarrow> Some None | Some inner \<Rightarrow> Some (Some comboData))
           | _ \<Rightarrow> Some storage'))"

text \<open>
  Conditions under which the merge is stated. \<open>enumerated\<close>: the order of
  \<^verbatim>\<open>range\<close> lists exactly the keys of each map of the layer that \<^verbatim>\<open>flatten\<close> ranges
  over, those of the outer map without repetition. \<open>nilWrite\<close>: an entry has to be
  written into a nil map of the parent, that is, a map of the parent is nil and the
  corresponding map of the layer has an entry. \<open>separate\<close>: the storage fields of
  the parent and of the layer are different objects, no inner map object occurs twice
  in the outer map of the parent, no inner map object of the layer occurs in the outer
  map of the parent, and the account map of the parent is none of the inner maps.
\<close>

definition enumerated :: "rangeOrder \<Rightarrow> mapStore \<Rightarrow> diffLayer \<Rightarrow> bool" where
  "enumerated ord ms dl \<longleftrightarrow>
     (\<forall>accounts. accountData dl = Some accounts \<longrightarrow>
        set (flatOrder ord (flatMap ms accounts)) = dom (flatMap ms accounts))
     \<and> (\<forall>storages. storageData dl = Some storages \<longrightarrow>
          set (nestedOrder ord (nestedMap ms storages)) = dom (nestedMap ms storages)
          \<and> distinct (nestedOrder ord (nestedMap ms storages))
          \<and> (\<forall>a inner. nestedMap ms storages a = Some (Some inner) \<longrightarrow>
                set (flatOrder ord (flatMap ms inner)) = dom (flatMap ms inner)))"

definition nilWrite :: "mapStore \<Rightarrow> diffLayer \<Rightarrow> diffLayer \<Rightarrow> bool" where
  "nilWrite ms par dl \<longleftrightarrow>
     (accountData par = None \<and> accountsOf ms (accountData dl) \<noteq> Map.empty)
     \<or> (storageData par = None \<and> innersOf ms (storageData dl) \<noteq> Map.empty)"

definition separate :: "mapStore \<Rightarrow> diffLayer \<Rightarrow> diffLayer \<Rightarrow> bool" where
  "separate ms par dl \<longleftrightarrow>
     (storageData dl = None \<or> storageData par \<noteq> storageData dl)
     \<and> (\<forall>a a' x. innersOf ms (storageData par) a = Some (Some x)
                  \<and> innersOf ms (storageData par) a' = Some (Some x) \<longrightarrow> a = a')
     \<and> (\<forall>a a' y. innersOf ms (storageData dl) a = Some (Some y) \<longrightarrow>
                  innersOf ms (storageData par) a' \<noteq> Some (Some y))
     \<and> (\<forall>accounts a. accountData par = Some accounts \<longrightarrow>
                  innersOf ms (storageData par) a \<noteq> Some (Some accounts)
                  \<and> innersOf ms (storageData dl) a \<noteq> Some (Some accounts))"

text \<open>
  The state of the maps after the storage loop has gone through the accounts in \<open>A\<close>,
  after the whole storage loop, after the account loop, and after both loops. These
  serve the proofs.
\<close>

definition loopInv ::
  "mapStore \<Rightarrow> nat \<Rightarrow> nat \<Rightarrow> bytes set \<Rightarrow> mapStore \<Rightarrow> bool" where
  "loopInv ms0 src d A ms \<longleftrightarrow>
     nestedMap ms =
       (nestedMap ms0)
         (d := (\<lambda>a. if a \<in> A then mergedRef (nestedMap ms0 d a) (nestedMap ms0 src a)
                     else nestedMap ms0 d a))
     \<and> (\<forall>a x y. a \<in> A \<and> nestedMap ms0 d a = Some (Some x) \<and> nestedMap ms0 src a = Some (Some y)
           \<longrightarrow> flatMap ms x = flatMap ms0 x ++ flatMap ms0 y)
     \<and> (\<forall>z. \<not> (\<exists>a y. a \<in> A \<and> nestedMap ms0 d a = Some (Some z)
                        \<and> nestedMap ms0 src a = Some (Some y))
           \<longrightarrow> flatMap ms z = flatMap ms0 z)"

definition storageMerged :: "mapStore \<Rightarrow> mapStore \<Rightarrow> nat option \<Rightarrow> nat option \<Rightarrow> bool" where
  "storageMerged m m2 po co \<longleftrightarrow>
     (\<forall>x. nestedMap m2 x =
              (if po = Some x
               then (\<lambda>a. mergedRef (nestedMap m x a) (innersOf m co a))
               else nestedMap m x))
     \<and> (\<forall>a x y. innersOf m po a = Some (Some x) \<and> innersOf m co a = Some (Some y) \<longrightarrow>
                 flatMap m2 x = flatMap m x ++ flatMap m y)
     \<and> (\<forall>z. \<not> (\<exists>a y. innersOf m po a = Some (Some z) \<and> innersOf m co a = Some (Some y)) \<longrightarrow>
             flatMap m2 z = flatMap m z)"

definition afterAccounts :: "mapStore \<Rightarrow> diffLayer \<Rightarrow> diffLayer \<Rightarrow> mapStore" where
  "afterAccounts ms par dl =
     (case accountData par of
        None \<Rightarrow> ms
      | Some pa \<Rightarrow>
          ms\<lparr>flatMap := (flatMap ms)(pa := flatMap ms pa ++ accountsOf ms (accountData dl))\<rparr>)"

definition mergedInto :: "mapStore \<Rightarrow> mapStore \<Rightarrow> diffLayer \<Rightarrow> diffLayer \<Rightarrow> bool" where
  "mergedInto ms ms2 par dl \<longleftrightarrow>
     (\<forall>accounts. accountData par = Some accounts \<longrightarrow>
        flatMap ms2 accounts = flatMap ms accounts ++ accountsOf ms (accountData dl))
     \<and> (\<forall>x. nestedMap ms2 x =
              (if storageData par = Some x
               then (\<lambda>a. mergedRef (nestedMap ms x a) (innersOf ms (storageData dl) a))
               else nestedMap ms x))
     \<and> (\<forall>a x y. innersOf ms (storageData par) a = Some (Some x)
                 \<and> innersOf ms (storageData dl) a = Some (Some y) \<longrightarrow>
                 flatMap ms2 x = flatMap ms x ++ flatMap ms y)
     \<and> (\<forall>z. accountData par \<noteq> Some z
             \<and> \<not> (\<exists>a y. innersOf ms (storageData par) a = Some (Some z)
                         \<and> innersOf ms (storageData dl) a = Some (Some y)) \<longrightarrow>
             flatMap ms2 z = flatMap ms z)"

text \<open>
  Undoing a list of scopes in order, as \<^verbatim>\<open>RevertToSnapshot\<close> does for the scopes it
  visits.
\<close>

fun revertAll :: "scopedJournal list \<Rightarrow> StateDB \<Rightarrow> dirtyMap \<Rightarrow> error + (StateDB \<times> dirtyMap)" where
  "revertAll [] s ds = Inr (s, ds)"
| "revertAll (e # es) s ds =
     (case revert e s ds of
        Inl err \<Rightarrow> Inl err
      | Inr (s', ds') \<Rightarrow> revertAll es s' ds')"

section \<open>Sample inputs\<close>

text \<open>
  Concrete collaborators on which the functions above are evaluated: a trie library
  whose every operation succeeds (a proof of a key is the key itself), a disk layer
  that answers every read, a diff layer with nil maps over a given parent and with a
  given \<^verbatim>\<open>diffed\<close> filter, and Bloom parameters that give every item one bit.
\<close>

definition demoLib :: "unit trieLib" where
  "demoLib = \<lparr>StackTrieHash = (\<lambda>kvs. []), trieNew = (\<lambda>r. Inr ()),
              trieNewRelay = (\<lambda>r kvs. Some ()), Prove = (\<lambda>t k. Inr [k]),
              VerifyRangeProof = (\<lambda>r f l ks vs pf. (False, None)),
              NodeIterator = (\<lambda>t org. ([], None))\<rparr>"

definition demoDisk :: diskLayer where
  "demoDisk = \<lparr>diskAccountRLP = (\<lambda>h. Inr [1]), diskStorage = (\<lambda>a s. Inr [2])\<rparr>"

definition demoLayer :: "snapshot \<Rightarrow> filter \<Rightarrow> diffLayer" where
  "demoLayer par f =
     \<lparr>origin = None, parent = par, memory = 0, root = [], stale = False,
      accountList = None, accountData = None, storageList = Map.empty,
      storageData = None, diffed = Some f, cumulative = None\<rparr>"

definition demoBloom :: bloomParams where
  "demoBloom = \<lparr>bloomHasherOffset = 0, bloomBits = (\<lambda>x. {unat x mod 8})\<rparr>"

text \<open>
  A database with three snapshot accounts under the prefix \<open>[1]\<close>, trie leaves that
  differ from it, and a trie library whose range verification fails.
\<close>

definition demoKey :: "byte \<Rightarrow> bytes" where
  "demoKey b = replicate 31 0 @ [b]"

definition demoLeaves :: "(bytes \<times> bytes) list" where
  "demoLeaves = [(demoKey 2, [5]), (demoKey 3, [7]), (demoKey 4, [9]), (demoKey 6, [1])]"

definition demoDb :: kvdb where
  "demoDb = [(1 # demoKey 1, [8]), (1 # demoKey 2, [5]), (1 # demoKey 4, [6])]"

definition failingLib :: "unit trieLib" where
  "failingLib = \<lparr>StackTrieHash = (\<lambda>kvs. []), trieNew = (\<lambda>r. Inr ()),
              trieNewRelay = (\<lambda>r kvs. Some ()), Prove = (\<lambda>t k. Inr [k]),
              VerifyRangeProof = (\<lambda>r f l ks vs pf. (False, Some (LibError 0))),
              NodeIterator = (\<lambda>t org. (demoLeaves, None))\<rparr>"

text \<open>
  A \<^verbatim>\<open>range\<close> order that yields the keys \<open>[1]\<close>, ..., \<open>[8]\<close> in ascending order, and
  a store of maps for three layers: the objects 0 and 1 are the account map and an
  inner map of the lowest layer, 2, 3 and 4 those of the middle layer, 5 and 6 those of
  the top layer.
\<close>

definition demoKeys :: "bytes list" where
  "demoKeys = [[1], [2], [3], [4], [5], [6], [7], [8]]"

definition demoOrder :: rangeOrder where
  "demoOrder = \<lparr>flatOrder = (\<lambda>m. filter (\<lambda>k. m k \<noteq> None) demoKeys),
                nestedOrder = (\<lambda>m. filter (\<lambda>k. m k \<noteq> None) demoKeys)\<rparr>"

definition demoMaps :: mapStore where
  "demoMaps =
     \<lparr>flatMap = (\<lambda>x. Map.empty)
        (0 := [[1] \<mapsto> [10], [2] \<mapsto> [20]],
         1 := [[7] \<mapsto> [70], [8] \<mapsto> [80]],
         2 := [[2] \<mapsto> [], [3] \<mapsto> [30]],
         3 := [[8] \<mapsto> [81]],
         4 := [[5] \<mapsto> [50]],
         5 := [[1] \<mapsto> [11]],
         6 := [[5] \<mapsto> [51], [6] \<mapsto> [60]]),
      nestedMap = (\<lambda>x. Map.empty)
        (0 := [[1] \<mapsto> Some 1],
         1 := [[1] \<mapsto> Some 3, [4] \<mapsto> Some 4, [2] \<mapsto> None],
         2 := [[4] \<mapsto> Some 6])\<rparr>"

text \<open>
  A store with three diff layers above the disk layer; the layer that flattening the
  middle layer into the lowest one returns, and the store of maps after it; and two
  layers of which the lower has nil maps.
\<close>

definition demoBase :: diffLayer where
  "demoBase =
     (demoLayer (DiskLayer demoDisk) {1})
        \<lparr>origin := Some demoDisk, memory := 10, root := [6],
         accountData := Some 0, storageData := Some 0\<rparr>"

definition demoMiddle :: diffLayer where
  "demoMiddle =
     (demoLayer (DiffLayer 0) {2})
        \<lparr>memory := 5, root := [9], accountData := Some 2, storageData := Some 1\<rparr>"

definition demoTop :: diffLayer where
  "demoTop =
     (demoLayer (DiffLayer 1) {3})
        \<lparr>memory := 2, root := [12], accountData := Some 5, storageData := Some 2\<rparr>"

definition demoHeap :: heap where
  "demoHeap = [demoBase, demoMiddle, demoTop]"

definition demoFlat :: diffLayer where
  "demoFlat =
     \<lparr>origin = Some demoDisk, parent = DiskLayer demoDisk, memory = 15, root = [9],
      stale = False, accountList = None, accountData = Some 0, storageList = Map.empty,
      storageData = Some 0, diffed = Some {2}, cumulative = None\<rparr>"

definition demoMaps1 :: mapStore where
  "demoMaps1 =
     \<lparr>flatMap = (flatMap demoMaps)
        (0 := [[1] \<mapsto> [10], [2] \<mapsto> [], [3] \<mapsto> [30]],
         1 := [[7] \<mapsto> [70], [8] \<mapsto> [81]]),
      nestedMap = (nestedMap demoMaps)
        (0 := [[1] \<mapsto> Some 1, [4] \<mapsto> Some 4, [2] \<mapsto> None])\<rparr>"

definition nilBase :: diffLayer where
  "nilBase = demoLayer (DiskLayer demoDisk) {1}"

definition nilTop :: diffLayer where
  "nilTop = (demoLayer (DiffLayer 0) {2})\<lparr>accountData := Some 5\<rparr>"

text \<open>
  The same keys in descending order, and two layers whose storage shares an inner map
  object: the object that the lower layer holds for the account \<open>[1]\<close> is the one
  that the upper layer holds for the account \<open>[2]\<close>.
\<close>

definition demoOrderDesc :: rangeOrder where
  "demoOrderDesc = \<lparr>flatOrder = (\<lambda>m. filter (\<lambda>k. m k \<noteq> None) (rev demoKeys)),
                    nestedOrder = (\<lambda>m. filter (\<lambda>k. m k \<noteq> None) (rev demoKeys))\<rparr>"

definition sharedMaps :: mapStore where
  "sharedMaps =
     \<lparr>flatMap = (\<lambda>x. Map.empty)
        (1 := [[7] \<mapsto> [70]], 2 := [[8] \<mapsto> [80]], 3 := [[5] \<mapsto> [50]]),
      nestedMap = (\<lambda>x. Map.empty)
        (0 := [[1] \<mapsto> Some 1, [2] \<mapsto> Some 2],
         1 := [[1] \<mapsto> Some 3, [2] \<mapsto> Some 1])\<rparr>"

definition sharedBase :: diffLayer where
  "sharedBase = (demoLayer (DiskLayer demoDisk) {1})\<lparr>storageData := Some 0\<rparr>"

definition sharedTop :: diffLayer where
  "sharedTop = (demoLayer (DiffLayer 0) {2})\<lparr>storageData := Some 1\<rparr>"

text \<open>An empty state.\<close>

definition demoState :: StateDB where
  "demoState =
     \<lparr>stateObjects = Map.empty, stateObjectsDirty = {}, sdbRefund = 0, sdbLogs = Map.empty,
      logSize = 0, accessAddresses = {}, accessSlots = {}, transientStorage = (\<lambda>addr key. [])\<rparr>"

text \<open>
  A conversion that fails on the value \<open>[5]\<close> and prefixes every other value with a
  zero byte.
\<close>

definition oddFails :: "bytes \<Rightarrow> error + bytes" where
  "oddFails v = (if v = [5] then Inl (LibError 7) else Inr (0 # v))"

text \<open>
  A pass for the main loop that counts the ranges it is given in the world: from the
  nil origin it ends at the key \<open>[0, 255]\<close> without exhausting the accounts, from
  \<open>[1, 0]\<close> it reports that the accounts are exhausted, and from any other origin it
  fails. And a generator state at the start of a fresh run.
\<close>

definition demoPass ::
  "bytes option \<Rightarrow> int \<Rightarrow> int genState \<Rightarrow> error + ((bool \<times> bytes option) \<times> int genState)" where
  "demoPass accOrigin accountRange gs =
     (case accOrigin of
        None \<Rightarrow> Inr ((False, Some [0, 255]), gs\<lparr>world := world gs + accountRange\<rparr>)
      | Some k \<Rightarrow>
          if k = [1, 0] then Inr ((True, Some [7, 7]), gs\<lparr>world := world gs + accountRange\<rparr>)
          else Inl (LibError 1))"

definition demoGen :: "int genState" where
  "demoGen = \<lparr>genMarker = None, genPendingOpen = True, persisted = None, world = 0\<rparr>"

section \<open>Properties of the range prover's batch\<close>

lemma collect_filter:
  "collect prefix maxn cv iter ks vs = collect prefix maxn cv (filter (exactLen prefix) iter) ks vs"
  by (induction iter arbitrary: ks vs) (auto simp: exactLen_def)

lemma NewIterator_filter:
  "NewIterator (filter P db) prefix org = filter P (NewIterator db prefix org)"
  by (auto simp: NewIterator_def intro: filter_cong)

lemma collect_exact:
  "\<forall>e \<in> set iter. exactLen prefix e \<Longrightarrow>
   collect prefix maxn cv iter ks vs =
     (if int (length ks) \<le> maxn then
        (ks @ map (\<lambda>(k, v). drop (length prefix) k) (take (nat maxn - length ks) iter),
         vs @ map (\<lambda>(k, v). convertValue cv v) (take (nat maxn - length ks) iter),
         nat maxn - length ks < length iter)
      else
        (ks @ map (\<lambda>(k, v). drop (length prefix) k) iter,
         vs @ map (\<lambda>(k, v). convertValue cv v) iter, False))"
proof (induction iter arbitrary: ks vs)
  case Nil
  then show ?case by simp
next
  case (Cons e iter)
  obtain k v where e: "e = (k, v)" by (cases e)
  from Cons.prems have ex: "length k = length prefix + HashLength"
    and rest: "\<forall>e \<in> set iter. exactLen prefix e"
    by (auto simp: e exactLen_def)
  show ?case
  proof (cases "int (length ks) = maxn")
    case True
    then show ?thesis by (auto simp: e ex)
  next
    case False
    note ne = this
    show ?thesis
    proof (cases "int (length ks) < maxn")
      case True
      then have "nat maxn - length ks = Suc (nat maxn - Suc (length ks))" by linarith
      with True ne show ?thesis
        by (simp add: e ex Cons.IH[OF rest])
    next
      case False
      with ne show ?thesis
        by (simp add: e ex Cons.IH[OF rest])
    qed
  qed
qed

lemma collect_closed_form:
  "collect prefix maxn cv iter [] [] =
     (map (\<lambda>(k, v). drop (length prefix) k) (batchEntries prefix maxn iter),
      map (\<lambda>(k, v). convertValue cv v) (batchEntries prefix maxn iter),
      0 \<le> maxn \<and> nat maxn < length (filter (exactLen prefix) iter))"
proof -
  have "\<forall>e \<in> set (filter (exactLen prefix) iter). exactLen prefix e" by simp
  from collect_exact[OF this, of maxn cv "[]" "[]"] show ?thesis
    by (subst collect_filter) (auto simp: batchEntries_def)
qed

lemma collect_cong_convert:
  "(\<And>v. convertValue cv v = convertValue cv' v) \<Longrightarrow>
   collect prefix maxn cv iter ks vs = collect prefix maxn cv' iter ks vs"
  by (induction iter arbitrary: ks vs) auto

lemma proveRange_cong_convert:
  assumes "\<And>v. convertValue cv v = convertValue cv' v"
  shows "proveRange lib db rt prefix org maxn cv = proveRange lib db rt prefix org maxn cv'"
  unfolding proveRange_def collect_cong_convert[OF assms] ..

text \<open>
  Claim C10. \<^verbatim>\<open>proveRange\<close> skips every iterated key whose length is not
  \<open>len(prefix) + 32\<close>: the batch is built from the exact-length entries alone, the
  capacity counts only them, \<^verbatim>\<open>diskMore\<close> is set exactly when more than \<open>max\<close> of
  them exist, and the whole result of \<^verbatim>\<open>proveRange\<close> is the one obtained on the
  database with every other key removed.
\<close>

theorem proveRange_skips_other_lengths:
  "collect prefix maxn cv iter [] [] =
     (map (\<lambda>(k, v). drop (length prefix) k) (batchEntries prefix maxn iter),
      map (\<lambda>(k, v). convertValue cv v) (batchEntries prefix maxn iter),
      0 \<le> maxn \<and> nat maxn < length (filter (exactLen prefix) iter))
   \<and> proveRange lib db rt prefix org maxn cv =
       proveRange lib (filter (exactLen prefix) db) rt prefix org maxn cv"
proof
  show "collect prefix maxn cv iter [] [] =
     (map (\<lambda>(k, v). drop (length prefix) k) (batchEntries prefix maxn iter),
      map (\<lambda>(k, v). convertValue cv v) (batchEntries prefix maxn iter),
      0 \<le> maxn \<and> nat maxn < length (filter (exactLen prefix) iter))"
    by (rule collect_closed_form)
next
  have "collect prefix maxn cv (NewIterator (filter (exactLen prefix) db) prefix org) [] [] =
        collect prefix maxn cv (NewIterator db prefix org) [] []"
    by (simp add: NewIterator_filter collect_filter[symmetric])
  then show "proveRange lib db rt prefix org maxn cv =
       proveRange lib (filter (exactLen prefix) db) rt prefix org maxn cv"
    by (simp add: proveRange_def)
qed

section \<open>The two paths of the range prover\<close>

lemma proveRange_no_proof:
  assumes "collect prefix maxn cv (NewIterator db prefix None) [] [] = (ks, vs, False)"
  shows "proveRange lib db rt prefix None maxn cv =
           Inr (\<lparr>keys = ks, vals = vs, diskMore = False, trieMore = False,
                  proofErr = (if StackTrieHash lib (zip ks vs) = rt then None else Some ErrWrongRoot),
                  tr = None\<rparr>, [])"
  using assms by (simp add: proveRange_def)

lemma proveRange_missing_trie:
  assumes "collect prefix maxn cv (NewIterator db prefix org) [] [] = (ks, vs, dmore)"
    and "org \<noteq> None \<or> dmore"
    and "trieNew lib rt = Inl err"
  shows "proveRange lib db rt prefix org maxn cv = Inl err"
  using assms by (auto simp: proveRange_def)

lemma proveRange_verified:
  assumes "collect prefix maxn cv (NewIterator db prefix org) [] [] = (ks, vs, dmore)"
    and "org \<noteq> None \<or> dmore"
    and "trieNew lib rt = Inr t"
    and "Prove lib t (firstKey org) = Inr nodes1"
    and "Prove lib t (last ks) = Inr nodes2"
    and "ks \<noteq> []"
  shows "proveRange lib db rt prefix org maxn cv =
           Inr (\<lparr>keys = ks, vals = vs, diskMore = dmore,
                  trieMore = fst (VerifyRangeProof lib rt (firstKey org) (Some (last ks)) ks vs (nodes1 @ nodes2)),
                  proofErr = snd (VerifyRangeProof lib rt (firstKey org) (Some (last ks)) ks vs (nodes1 @ nodes2)),
                  tr = Some t\<rparr>, [firstKey org, last ks])"
  using assms
  by (auto simp: proveRange_def firstKey_def Let_def lastKey_def last_conv_nth split: sum.splits option.splits prod.splits)

lemma proveRange_verified_empty:
  assumes "collect prefix maxn cv (NewIterator db prefix org) [] [] = ([], vs, dmore)"
    and "org \<noteq> None \<or> dmore"
    and "trieNew lib rt = Inr t"
    and "Prove lib t (firstKey org) = Inr nodes1"
  shows "proveRange lib db rt prefix org maxn cv =
           Inr (\<lparr>keys = [], vals = vs, diskMore = dmore,
                  trieMore = fst (VerifyRangeProof lib rt (firstKey org) None [] vs nodes1),
                  proofErr = snd (VerifyRangeProof lib rt (firstKey org) None [] vs nodes1),
                  tr = Some t\<rparr>, [firstKey org])"
  using assms
  by (auto simp: proveRange_def firstKey_def Let_def lastKey_def split: sum.splits option.splits prod.splits)

lemma proveRange_first_proof_fails:
  assumes "collect prefix maxn cv (NewIterator db prefix org) [] [] = (ks, vs, dmore)"
    and "org \<noteq> None \<or> dmore"
    and "trieNew lib rt = Inr t"
    and "Prove lib t (firstKey org) = Inl err"
  shows "proveRange lib db rt prefix org maxn cv =
           Inr (\<lparr>keys = ks, vals = vs, diskMore = dmore, trieMore = False,
                  proofErr = Some err, tr = Some t\<rparr>, [firstKey org])"
  using assms
  by (auto simp: proveRange_def firstKey_def Let_def split: sum.splits option.splits prod.splits)

lemma proveRange_last_proof_fails:
  assumes "collect prefix maxn cv (NewIterator db prefix org) [] [] = (ks, vs, dmore)"
    and "org \<noteq> None \<or> dmore"
    and "trieNew lib rt = Inr t"
    and "Prove lib t (firstKey org) = Inr nodes1"
    and "ks \<noteq> []"
    and "Prove lib t (last ks) = Inl err"
  shows "proveRange lib db rt prefix org maxn cv =
           Inr (\<lparr>keys = ks, vals = vs, diskMore = dmore, trieMore = False,
                  proofErr = Some err, tr = Some t\<rparr>, [firstKey org, last ks])"
  using assms
  by (auto simp: proveRange_def firstKey_def Let_def lastKey_def last_conv_nth
           split: sum.splits option.splits prod.splits)

lemma proveRange_result:
  fixes lib :: "'tr trieLib"
  defines "B \<equiv> \<lambda>db prefix org maxn. batchEntries prefix maxn (NewIterator db prefix org)"
  shows "(case proveRange lib db rt prefix org maxn cv of
        Inl err \<Rightarrow>
          \<not> (org = None \<and>
             \<not> (0 \<le> maxn \<and> nat maxn < length (filter (exactLen prefix) (NewIterator db prefix org))))
          \<and> trieNew lib rt = Inl err
      | Inr (res, proved) \<Rightarrow>
          keys res = map (\<lambda>(k, v). drop (length prefix) k) (B db prefix org maxn)
          \<and> vals res = map (\<lambda>(k, v). convertValue cv v) (B db prefix org maxn)
          \<and> proofErr res =
              (if org = None \<and>
                  \<not> (0 \<le> maxn \<and> nat maxn < length (filter (exactLen prefix) (NewIterator db prefix org)))
               then (if StackTrieHash lib (zip (keys res) (vals res)) = rt then None
                     else Some ErrWrongRoot)
               else (case trieNew lib rt of
                       Inl err \<Rightarrow> Some err
                     | Inr t \<Rightarrow>
                         (case Prove lib t (firstKey org) of
                            Inl err \<Rightarrow> Some err
                          | Inr nodes1 \<Rightarrow>
                              if keys res = [] then
                                snd (VerifyRangeProof lib rt (firstKey org) None
                                       (keys res) (vals res) nodes1)
                              else
                                (case Prove lib t (last (keys res)) of
                                   Inl err \<Rightarrow> Some err
                                 | Inr nodes2 \<Rightarrow>
                                     snd (VerifyRangeProof lib rt (firstKey org)
                                            (Some (last (keys res))) (keys res) (vals res)
                                            (nodes1 @ nodes2)))))))"
proof -
  define ks where "ks = map (\<lambda>(k, v). drop (length prefix) k) (B db prefix org maxn)"
  define vs where "vs = map (\<lambda>(k, v). convertValue cv v) (B db prefix org maxn)"
  define dmore where
    "dmore = (0 \<le> maxn \<and> nat maxn < length (filter (exactLen prefix) (NewIterator db prefix org)))"
  have c: "collect prefix maxn cv (NewIterator db prefix org) [] [] = (ks, vs, dmore)"
    by (simp add: collect_closed_form B_def ks_def vs_def dmore_def)
  have "case proveRange lib db rt prefix org maxn cv of
        Inl err \<Rightarrow> \<not> (org = None \<and> \<not> dmore) \<and> trieNew lib rt = Inl err
      | Inr (res, proved) \<Rightarrow>
          keys res = ks \<and> vals res = vs
          \<and> proofErr res =
              (if org = None \<and> \<not> dmore
               then (if StackTrieHash lib (zip (keys res) (vals res)) = rt then None
                     else Some ErrWrongRoot)
               else (case trieNew lib rt of
                       Inl err \<Rightarrow> Some err
                     | Inr t \<Rightarrow>
                         (case Prove lib t (firstKey org) of
                            Inl err \<Rightarrow> Some err
                          | Inr nodes1 \<Rightarrow>
                              if keys res = [] then
                                snd (VerifyRangeProof lib rt (firstKey org) None
                                       (keys res) (vals res) nodes1)
                              else
                                (case Prove lib t (last (keys res)) of
                                   Inl err \<Rightarrow> Some err
                                 | Inr nodes2 \<Rightarrow>
                                     snd (VerifyRangeProof lib rt (firstKey org)
                                            (Some (last (keys res))) (keys res) (vals res)
                                            (nodes1 @ nodes2))))))"
  proof (cases "org = None \<and> \<not> dmore")
    case True
    with c have c': "collect prefix maxn cv (NewIterator db prefix None) [] [] = (ks, vs, False)"
      by simp
    from True proveRange_no_proof[OF c', of lib rt] have "proveRange lib db rt prefix org maxn cv =
              Inr (\<lparr>keys = ks, vals = vs, diskMore = False, trieMore = False,
                     proofErr = (if StackTrieHash lib (zip ks vs) = rt then None
                                 else Some ErrWrongRoot),
                     tr = None\<rparr>, [])" by simp
    with True show ?thesis by simp
  next
    case False
    note ne0 = this
    then have e: "org \<noteq> None \<or> dmore" by auto
    show ?thesis
    proof (cases "trieNew lib rt")
      case (Inl err)
      with proveRange_missing_trie[OF c e Inl] ne0 show ?thesis by auto
    next
      case (Inr t)
      note t = this
      show ?thesis
      proof (cases "Prove lib t (firstKey org)")
        case (Inl err)
        with proveRange_first_proof_fails[OF c e t Inl] ne0 show ?thesis
          by (auto simp: t)
      next
        case (Inr nodes1)
        note n1 = this
        show ?thesis
        proof (cases "ks = []")
          case True
          with proveRange_verified_empty[OF c[unfolded True] e t n1] ne0 show ?thesis
            by (auto simp: t n1)
        next
          case False
          note ne = this
          show ?thesis
          proof (cases "Prove lib t (last ks)")
            case (Inl err)
            with proveRange_last_proof_fails[OF c e t n1 ne Inl] ne0 ne
            show ?thesis by (auto simp: t n1)
          next
            case (Inr nodes2)
            with proveRange_verified[OF c e t n1 Inr ne] ne0 ne
            show ?thesis by (auto simp: t n1)
          qed
        qed
      qed
    qed
  qed
  then show ?thesis
    unfolding ks_def vs_def dmore_def .
qed

text \<open>
  Claim C6, as amended. \<^verbatim>\<open>proveRange\<close> takes the path without proofs exactly when
  the origin is nil and the batch is complete: it then reports valid iff the root of the
  stack trie over the batch is the target root, opens no trie and requests no edge
  proof. In every other case (a non-nil origin, the zero hash included, or a batch cut
  at the capacity) it opens the trie at the root and returns the error if that fails;
  otherwise it requests an edge proof for the first key (the origin, or the zero hash
  for a nil origin) and, for a batch that is not empty, one for the last key; a proof
  that fails becomes the proof error, and when the proofs are obtained the result is
  what \<^verbatim>\<open>VerifyRangeProof\<close> says about the batch with them.
\<close>

theorem proveRange_paths:
  assumes "collect prefix maxn cv (NewIterator db prefix org) [] [] = (ks, vs, dmore)"
  shows "(org = None \<and> \<not> dmore \<longrightarrow>
            proveRange lib db rt prefix org maxn cv =
              Inr (\<lparr>keys = ks, vals = vs, diskMore = False, trieMore = False,
                     proofErr = (if StackTrieHash lib (zip ks vs) = rt then None
                                 else Some ErrWrongRoot),
                     tr = None\<rparr>, []))
       \<and> ((org \<noteq> None \<or> dmore) \<longrightarrow>
            (case trieNew lib rt of
               Inl err \<Rightarrow> proveRange lib db rt prefix org maxn cv = Inl err
             | Inr t \<Rightarrow>
                 (case Prove lib t (firstKey org) of
                    Inl err \<Rightarrow>
                      proveRange lib db rt prefix org maxn cv =
                        Inr (\<lparr>keys = ks, vals = vs, diskMore = dmore, trieMore = False,
                               proofErr = Some err, tr = Some t\<rparr>, [firstKey org])
                  | Inr nodes1 \<Rightarrow>
                      if ks = [] then
                        proveRange lib db rt prefix org maxn cv =
                          Inr (\<lparr>keys = ks, vals = vs, diskMore = dmore,
                                 trieMore = fst (VerifyRangeProof lib rt (firstKey org)
                                                   None ks vs nodes1),
                                 proofErr = snd (VerifyRangeProof lib rt (firstKey org)
                                                   None ks vs nodes1),
                                 tr = Some t\<rparr>, [firstKey org])
                      else
                        (case Prove lib t (last ks) of
                           Inl err \<Rightarrow>
                             proveRange lib db rt prefix org maxn cv =
                               Inr (\<lparr>keys = ks, vals = vs, diskMore = dmore, trieMore = False,
                                      proofErr = Some err, tr = Some t\<rparr>,
                                    [firstKey org, last ks])
                         | Inr nodes2 \<Rightarrow>
                             proveRange lib db rt prefix org maxn cv =
                               Inr (\<lparr>keys = ks, vals = vs, diskMore = dmore,
                                      trieMore = fst (VerifyRangeProof lib rt (firstKey org)
                                                        (Some (last ks)) ks vs (nodes1 @ nodes2)),
                                      proofErr = snd (VerifyRangeProof lib rt (firstKey org)
                                                        (Some (last ks)) ks vs (nodes1 @ nodes2)),
                                      tr = Some t\<rparr>, [firstKey org, last ks])))))"
proof (intro conjI impI)
  assume "org = None \<and> \<not> dmore"
  with assms show "proveRange lib db rt prefix org maxn cv =
              Inr (\<lparr>keys = ks, vals = vs, diskMore = False, trieMore = False,
                     proofErr = (if StackTrieHash lib (zip ks vs) = rt then None
                                 else Some ErrWrongRoot),
                     tr = None\<rparr>, [])"
    using proveRange_no_proof[of prefix maxn cv db ks vs lib rt] by simp
next
  assume e: "org \<noteq> None \<or> dmore"
  show "case trieNew lib rt of
               Inl err \<Rightarrow> proveRange lib db rt prefix org maxn cv = Inl err
             | Inr t \<Rightarrow>
                 (case Prove lib t (firstKey org) of
                    Inl err \<Rightarrow>
                      proveRange lib db rt prefix org maxn cv =
                        Inr (\<lparr>keys = ks, vals = vs, diskMore = dmore, trieMore = False,
                               proofErr = Some err, tr = Some t\<rparr>, [firstKey org])
                  | Inr nodes1 \<Rightarrow>
                      if ks = [] then
                        proveRange lib db rt prefix org maxn cv =
                          Inr (\<lparr>keys = ks, vals = vs, diskMore = dmore,
                                 trieMore = fst (VerifyRangeProof lib rt (firstKey org)
                                                   None ks vs nodes1),
                                 proofErr = snd (VerifyRangeProof lib rt (firstKey org)
                                                   None ks vs nodes1),
                                 tr = Some t\<rparr>, [firstKey org])
                      else
                        (case Prove lib t (last ks) of
                           Inl err \<Rightarrow>
                             proveRange lib db rt prefix org maxn cv =
                               Inr (\<lparr>keys = ks, vals = vs, diskMore = dmore, trieMore = False,
                                      proofErr = Some err, tr = Some t\<rparr>,
                                    [firstKey org, last ks])
                         | Inr nodes2 \<Rightarrow>
                             proveRange lib db rt prefix org maxn cv =
                               Inr (\<lparr>keys = ks, vals = vs, diskMore = dmore,
                                      trieMore = fst (VerifyRangeProof lib rt (firstKey org)
                                                        (Some (last ks)) ks vs (nodes1 @ nodes2)),
                                      proofErr = snd (VerifyRangeProof lib rt (firstKey org)
                                                        (Some (last ks)) ks vs (nodes1 @ nodes2)),
                                      tr = Some t\<rparr>, [firstKey org, last ks])))"
  proof (cases "trieNew lib rt")
    case (Inl err)
    then show ?thesis using proveRange_missing_trie[OF assms e] by simp
  next
    case (Inr t)
    note t = this
    show ?thesis
    proof (cases "Prove lib t (firstKey org)")
      case (Inl err)
      then show ?thesis using proveRange_first_proof_fails[OF assms e t] by (simp add: t)
    next
      case (Inr nodes1)
      note n1 = this
      show ?thesis
      proof (cases "ks = []")
        case True
        then show ?thesis
          using proveRange_verified_empty[OF assms[unfolded True] e t n1] by (simp add: t n1)
      next
        case False
        then show ?thesis
          using proveRange_last_proof_fails[OF assms e t n1 False]
            proveRange_verified[OF assms e t n1 _ False]
          by (simp add: t n1 split: sum.splits)
      qed
    qed
  qed
qed

text \<open>
  The claim C6 as stated takes the path without proofs at the first key of 32 zero
  bytes. Called with that origin on an empty (hence complete) batch, the code opens the
  trie and requests an edge proof; called with a nil origin it does neither.
\<close>

theorem proveRange_zero_origin_counterexample:
  "proveRange demoLib [] [] [] (Some (replicate 32 0)) 128 None =
     Inr (\<lparr>keys = [], vals = [], diskMore = False, trieMore = False, proofErr = None,
            tr = Some ()\<rparr>, [replicate 32 0])
   \<and> proveRange demoLib [] [] [] None 128 None =
     Inr (\<lparr>keys = [], vals = [], diskMore = False, trieMore = False, proofErr = None,
            tr = None\<rparr>, [])"
  by (simp add: proveRange_def demoLib_def NewIterator_def lastKey_def)

lemma demo_collect:
  "collect [1] 128 None (NewIterator [(replicate 33 1, [5])] [1] (Some (replicate 32 0))) [] [] =
     ([replicate 32 1], [[5]], False)"
  by code_simp

lemma demo_collect_nil:
  "collect [1] 128 None (NewIterator [(replicate 33 1, [5])] [1] None) [] [] =
     ([replicate 32 1], [[5]], False)"
  by code_simp

theorem proveRange_paths_witness:
  "proveRange demoLib [(replicate 33 1, [5])] [] [1] (Some (replicate 32 0)) 128 None =
     Inr (\<lparr>keys = [replicate 32 1], vals = [[5]], diskMore = False, trieMore = False,
            proofErr = None, tr = Some ()\<rparr>, [replicate 32 0, replicate 32 1])
   \<and> proveRange demoLib [(replicate 33 1, [5])] [] [1] None 128 None =
     Inr (\<lparr>keys = [replicate 32 1], vals = [[5]], diskMore = False, trieMore = False,
            proofErr = None, tr = None\<rparr>, [])"
proof
  have "Prove demoLib () (firstKey (Some (replicate 32 0))) = Inr [replicate 32 0]"
    and "Prove demoLib () (last [replicate 32 (1 :: byte)]) = Inr [replicate 32 1]"
    and "trieNew demoLib [] = Inr ()"
    by (simp_all add: demoLib_def firstKey_def)
  with proveRange_paths[OF demo_collect, of demoLib "[]", THEN conjunct2]
  show "proveRange demoLib [(replicate 33 1, [5])] [] [1] (Some (replicate 32 0)) 128 None =
     Inr (\<lparr>keys = [replicate 32 1], vals = [[5]], diskMore = False, trieMore = False,
            proofErr = None, tr = Some ()\<rparr>, [replicate 32 0, replicate 32 1])"
    by (simp add: demoLib_def firstKey_def)
next
  from proveRange_paths[OF demo_collect_nil, of demoLib "[]", THEN conjunct1]
  show "proveRange demoLib [(replicate 33 1, [5])] [] [1] None 128 None =
     Inr (\<lparr>keys = [replicate 32 1], vals = [[5]], diskMore = False, trieMore = False,
            proofErr = None, tr = None\<rparr>, [])"
    by (simp add: demoLib_def)
qed

section \<open>Values that fail to convert\<close>

text \<open>
  Claim C9. With a conversion function \<open>f\<close>, an entry whose conversion fails
  contributes its original value and the iteration goes on. Whenever \<^verbatim>\<open>proveRange\<close>
  returns a result, its keys are the keys of the batch (prefix removed), in order, and
  its values are the values of the same entries, in the same places: converted where
  \<open>f\<close> succeeds and the raw value where \<open>f\<close> fails, so keys and values have
  the same length. The proof error of the result is what the verification of these keys
  and values gives (the comparison of the stack-trie root on the path without proofs, and
  else the error of opening the trie, of an edge proof, or of \<^verbatim>\<open>VerifyRangeProof\<close>): a
  failed conversion is no error of its own. \<^verbatim>\<open>proveRange\<close> returns an error instead of a
  result only on the path with edge proofs, when the trie cannot be opened. The same
  holds of the loop that collects the batch from any iterator, and the whole result is
  the one obtained with the conversion that never fails.
\<close>

theorem proveRange_keeps_unconverted_value:
  "(case proveRange lib db rt prefix org maxn (Some f) of
      Inl err \<Rightarrow>
        \<not> (org = None \<and>
           \<not> (0 \<le> maxn \<and> nat maxn < length (filter (exactLen prefix) (NewIterator db prefix org))))
        \<and> trieNew lib rt = Inl err
    | Inr (res, proved) \<Rightarrow>
        keys res = map (\<lambda>(k, v). drop (length prefix) k)
                     (batchEntries prefix maxn (NewIterator db prefix org))
        \<and> vals res = map (\<lambda>(k, v). case f v of Inl err \<Rightarrow> v | Inr val \<Rightarrow> val)
                         (batchEntries prefix maxn (NewIterator db prefix org))
        \<and> length (keys res) = length (vals res)
        \<and> proofErr res =
            (if org = None \<and>
                \<not> (0 \<le> maxn \<and> nat maxn < length (filter (exactLen prefix) (NewIterator db prefix org)))
             then (if StackTrieHash lib (zip (keys res) (vals res)) = rt then None
                   else Some ErrWrongRoot)
             else (case trieNew lib rt of
                     Inl err \<Rightarrow> Some err
                   | Inr t \<Rightarrow>
                       (case Prove lib t (firstKey org) of
                          Inl err \<Rightarrow> Some err
                        | Inr nodes1 \<Rightarrow>
                            if keys res = [] then
                              snd (VerifyRangeProof lib rt (firstKey org) None
                                     (keys res) (vals res) nodes1)
                            else
                              (case Prove lib t (last (keys res)) of
                                 Inl err \<Rightarrow> Some err
                               | Inr nodes2 \<Rightarrow>
                                   snd (VerifyRangeProof lib rt (firstKey org)
                                          (Some (last (keys res))) (keys res) (vals res)
                                          (nodes1 @ nodes2)))))))
   \<and> (case collect prefix maxn (Some f) iter [] [] of
        (ks, vs, dmore) \<Rightarrow>
          length ks = length vs \<and>
          vs = map (\<lambda>(k, v). case f v of Inl err \<Rightarrow> v | Inr val \<Rightarrow> val)
                 (batchEntries prefix maxn iter))
   \<and> proveRange lib db rt prefix org maxn (Some f) =
       proveRange lib db rt prefix org maxn
         (Some (\<lambda>v. Inr (case f v of Inl err \<Rightarrow> v | Inr val \<Rightarrow> val)))"
proof (intro conjI)
  have cv: "(\<lambda>(k, v). convertValue (Some f) v) =
            (\<lambda>(k :: bytes, v). case f v of Inl err \<Rightarrow> v | Inr val \<Rightarrow> val)"
    by (simp add: convertValue_def)
  show "case proveRange lib db rt prefix org maxn (Some f) of
      Inl err \<Rightarrow>
        \<not> (org = None \<and>
           \<not> (0 \<le> maxn \<and> nat maxn < length (filter (exactLen prefix) (NewIterator db prefix org))))
        \<and> trieNew lib rt = Inl err
    | Inr (res, proved) \<Rightarrow>
        keys res = map (\<lambda>(k, v). drop (length prefix) k)
                     (batchEntries prefix maxn (NewIterator db prefix org))
        \<and> vals res = map (\<lambda>(k, v). case f v of Inl err \<Rightarrow> v | Inr val \<Rightarrow> val)
                         (batchEntries prefix maxn (NewIterator db prefix org))
        \<and> length (keys res) = length (vals res)
        \<and> proofErr res =
            (if org = None \<and>
                \<not> (0 \<le> maxn \<and> nat maxn < length (filter (exactLen prefix) (NewIterator db prefix org)))
             then (if StackTrieHash lib (zip (keys res) (vals res)) = rt then None
                   else Some ErrWrongRoot)
             else (case trieNew lib rt of
                     Inl err \<Rightarrow> Some err
                   | Inr t \<Rightarrow>
                       (case Prove lib t (firstKey org) of
                          Inl err \<Rightarrow> Some err
                        | Inr nodes1 \<Rightarrow>
                            if keys res = [] then
                              snd (VerifyRangeProof lib rt (firstKey org) None
                                     (keys res) (vals res) nodes1)
                            else
                              (case Prove lib t (last (keys res)) of
                                 Inl err \<Rightarrow> Some err
                               | Inr nodes2 \<Rightarrow>
                                   snd (VerifyRangeProof lib rt (firstKey org)
                                          (Some (last (keys res))) (keys res) (vals res)
                                          (nodes1 @ nodes2))))))"
    using proveRange_result[where cv = "Some f" and lib = lib and db = db and rt = rt and prefix = prefix and org = org and maxn = maxn]
    unfolding cv
    by (auto split: sum.splits)
next
  show "case collect prefix maxn (Some f) iter [] [] of
      (ks, vs, dmore) \<Rightarrow>
        length ks = length vs \<and>
        vs = map (\<lambda>(k, v). case f v of Inl err \<Rightarrow> v | Inr val \<Rightarrow> val)
               (batchEntries prefix maxn iter)"
    by (simp add: collect_closed_form convertValue_def)
next
  show "proveRange lib db rt prefix org maxn (Some f) =
       proveRange lib db rt prefix org maxn
         (Some (\<lambda>v. Inr (case f v of Inl err \<Rightarrow> v | Inr val \<Rightarrow> val)))"
    by (rule proveRange_cong_convert) (simp add: convertValue_def split: sum.splits)
qed

lemma demo_failed_conversion:
  "(case proveRange failingLib demoDb [] [1] None 128 (Some oddFails) of
      Inl err \<Rightarrow> False
    | Inr (res, proved) \<Rightarrow>
        keys res = [demoKey 1, demoKey 2, demoKey 4]
        \<and> vals res = [[0, 8], [5], [0, 6]] \<and> proofErr res = None \<and> proved = [])"
  by code_simp

section \<open>The end of the main loop\<close>

lemma incRev_None: "incRev bs = None \<longleftrightarrow> (\<forall>b \<in> set bs. b = 255)"
proof (induction bs)
  case Nil
  show ?case by simp
next
  case (Cons b bs)
  have "b + 1 = 0 \<longleftrightarrow> b = 255"
  proof
    assume "b + 1 = 0"
    then have "b = - 1" by (simp add: eq_neg_iff_add_eq_0)
    then show "b = 255" by simp
  qed simp
  with Cons show ?case by auto
qed

lemma increaseKey_None:
  "increaseKey lst = None \<longleftrightarrow> (case lst of None \<Rightarrow> True | Some k \<Rightarrow> \<forall>b \<in> set k. b = 255)"
  by (cases lst) (simp_all add: increaseKey_def incRev_None)

lemma finish_result:
  "finish batchWrite st =
     (case batchWrite (world st) of
        Inl err \<Rightarrow> Inl err
      | Inr w \<Rightarrow> Inr \<lparr>genMarker = None, genPendingOpen = False,
                       persisted = Some \<lparr>Done = True, Marker = None\<rparr>, world = w\<rparr>)"
  by (cases st) (simp add: finish_def journalProgress_def split: sum.splits)

lemma runPasses_mainLoop:
  "runPasses pass n accOrigin accountRange st = Some res \<Longrightarrow>
   mainLoop pass accOrigin accountRange st = Some res"
proof (induction n arbitrary: accOrigin accountRange st)
  case 0
  then show ?case by simp
next
  case (Suc n)
  show ?case
  proof (cases "pass accOrigin accountRange st")
    case (Inl err)
    with Suc.prems show ?thesis by (subst mainLoop.simps) simp
  next
    case (Inr r)
    obtain exhausted lst st' where r: "r = ((exhausted, lst), st')" by (cases r) auto
    show ?thesis
    proof (cases "exhausted \<or> increaseKey lst = None")
      case True
      with Suc.prems Inr r show ?thesis by (subst mainLoop.simps) auto
    next
      case False
      then obtain k where k: "increaseKey lst = Some k" and ne: "\<not> exhausted" by auto
      with Suc.prems Inr r have "runPasses pass n (Some k) accountCheckRange st' = Some res"
        by simp
      from Suc.IH[OF this] Inr r k ne show ?thesis by (subst mainLoop.simps) simp
    qed
  qed
qed

lemma mainLoop_runPasses:
  assumes "mainLoop pass accOrigin accountRange st = Some res"
  shows "\<exists>n. runPasses pass n accOrigin accountRange st = Some res"
proof (rule mainLoop.raw_induct[OF _ assms])
  fix f :: "(bytes option \<Rightarrow> int \<Rightarrow> 'a genState \<Rightarrow> error + ((bool \<times> bytes option) \<times> 'a genState)) \<Rightarrow>
            bytes option \<Rightarrow> int \<Rightarrow> 'a genState \<Rightarrow> (error + 'a genState) option"
    and pass accOrigin accountRange st res
  assume IH: "\<And>pass accOrigin accountRange st res.
                f pass accOrigin accountRange st = Some res \<Longrightarrow>
                \<exists>n. runPasses pass n accOrigin accountRange st = Some res"
    and body: "(case pass accOrigin accountRange st of
                  Inl err \<Rightarrow> Some (Inl err)
                | Inr ((exhausted, lst), st') \<Rightarrow>
                    if exhausted then Some (Inr st')
                    else (case increaseKey lst of
                            None \<Rightarrow> Some (Inr st')
                          | Some accOrigin' \<Rightarrow> f pass (Some accOrigin') accountCheckRange st')) = Some res"
  show "\<exists>n. runPasses pass n accOrigin accountRange st = Some res"
  proof (cases "pass accOrigin accountRange st")
    case (Inl err)
    with body have "runPasses pass (Suc 0) accOrigin accountRange st = Some res" by simp
    then show ?thesis ..
  next
    case (Inr r)
    obtain exhausted lst st' where r: "r = ((exhausted, lst), st')" by (cases r) auto
    show ?thesis
    proof (cases "exhausted \<or> increaseKey lst = None")
      case True
      with body Inr r have "runPasses pass (Suc 0) accOrigin accountRange st = Some res" by auto
      then show ?thesis ..
    next
      case False
      then obtain k where k: "increaseKey lst = Some k" and ne: "\<not> exhausted" by auto
      with body Inr r have "f pass (Some k) accountCheckRange st' = Some res" by simp
      from IH[OF this] obtain n where "runPasses pass n (Some k) accountCheckRange st' = Some res" ..
      with Inr r k ne have "runPasses pass (Suc n) accOrigin accountRange st = Some res" by simp
      then show ?thesis ..
    qed
  qed
qed

lemma generate_after_init:
  assumes "generateInit (genMarker st) = Inr (accOrigin, accountRange)"
  shows "generate pass batchWrite st =
           (case mainLoop pass accOrigin accountRange st of
              None \<Rightarrow> None
            | Some (Inl err) \<Rightarrow> Some (Inl err)
            | Some (Inr st') \<Rightarrow> Some (finish batchWrite st'))"
  using assms by (simp add: generate_def split: option.splits sum.splits)

text \<open>
  Claim C4, as amended. Let the generator start with origin and range as
  \<^verbatim>\<open>generate\<close> initialises them. If the first pass fails, \<^verbatim>\<open>generate\<close> returns its
  error and does not finalise. If the pass returns \<open>(exhausted, last)\<close>, then
  \<^verbatim>\<open>generate\<close> leaves the loop and finalises at once exactly when \<open>exhausted\<close> holds
  or the successor of \<open>last\<close> overflows (\<open>last\<close> is nil or all its bytes are 0xff):
  either condition alone is enough. Finalising is writing the batch with the done
  record; when the write succeeds the marker is nil, \<^verbatim>\<open>genPending\<close> is closed and the
  done record is on disk, and when it fails \<^verbatim>\<open>generate\<close> returns the error of the
  write. When neither condition holds the loop goes on from the successor of
  \<open>last\<close> with the account range reset to 128, and \<^verbatim>\<open>generate\<close> finalises the state
  that the rest of the loop leaves, returns the error of a later pass without
  finalising, or does not return when the loop does not. Over the whole run:
  \<^verbatim>\<open>generate\<close> returns exactly when some number of passes reaches a failing pass or a
  pass with one of the two conditions, and it returns the error of that pass, or the
  finalisation of the state after that pass.
\<close>

theorem generate_finishes_on_either:
  assumes "generateInit (genMarker st) = Inr (accOrigin, accountRange)"
  shows "generate pass batchWrite st =
           (case pass accOrigin accountRange st of
              Inl err \<Rightarrow> Some (Inl err)
            | Inr ((exhausted, lst), st') \<Rightarrow>
                if exhausted \<or> (case lst of None \<Rightarrow> True | Some k \<Rightarrow> \<forall>b \<in> set k. b = 255)
                then Some (case batchWrite (world st') of
                             Inl err \<Rightarrow> Inl err
                           | Inr w \<Rightarrow>
                               Inr \<lparr>genMarker = None, genPendingOpen = False,
                                    persisted = Some \<lparr>Done = True, Marker = None\<rparr>, world = w\<rparr>)
                else (case mainLoop pass (increaseKey lst) accountCheckRange st' of
                        None \<Rightarrow> None
                      | Some (Inl err) \<Rightarrow> Some (Inl err)
                      | Some (Inr st'') \<Rightarrow>
                          Some (case batchWrite (world st'') of
                                  Inl err \<Rightarrow> Inl err
                                | Inr w \<Rightarrow>
                                    Inr \<lparr>genMarker = None, genPendingOpen = False,
                                         persisted = Some \<lparr>Done = True, Marker = None\<rparr>,
                                         world = w\<rparr>)))
       \<and> (generate pass batchWrite st = Some res \<longleftrightarrow>
            (\<exists>n x. runPasses pass n accOrigin accountRange st = Some x
               \<and> res = (case x of
                          Inl err \<Rightarrow> Inl err
                        | Inr st' \<Rightarrow>
                            (case batchWrite (world st') of
                               Inl err \<Rightarrow> Inl err
                             | Inr w \<Rightarrow>
                                 Inr \<lparr>genMarker = None, genPendingOpen = False,
                                      persisted = Some \<lparr>Done = True, Marker = None\<rparr>,
                                      world = w\<rparr>))))"
proof
  note g = generate_after_init[OF assms, of pass batchWrite]
  show "generate pass batchWrite st =
           (case pass accOrigin accountRange st of
              Inl err \<Rightarrow> Some (Inl err)
            | Inr ((exhausted, lst), st') \<Rightarrow>
                if exhausted \<or> (case lst of None \<Rightarrow> True | Some k \<Rightarrow> \<forall>b \<in> set k. b = 255)
                then Some (case batchWrite (world st') of
                             Inl err \<Rightarrow> Inl err
                           | Inr w \<Rightarrow>
                               Inr \<lparr>genMarker = None, genPendingOpen = False,
                                    persisted = Some \<lparr>Done = True, Marker = None\<rparr>, world = w\<rparr>)
                else (case mainLoop pass (increaseKey lst) accountCheckRange st' of
                        None \<Rightarrow> None
                      | Some (Inl err) \<Rightarrow> Some (Inl err)
                      | Some (Inr st'') \<Rightarrow>
                          Some (case batchWrite (world st'') of
                                  Inl err \<Rightarrow> Inl err
                                | Inr w \<Rightarrow>
                                    Inr \<lparr>genMarker = None, genPendingOpen = False,
                                         persisted = Some \<lparr>Done = True, Marker = None\<rparr>,
                                         world = w\<rparr>)))"
  proof (cases "pass accOrigin accountRange st")
    case (Inl err)
    then show ?thesis unfolding g by (subst mainLoop.simps) simp
  next
    case (Inr r)
    obtain exhausted lst st' where r: "r = ((exhausted, lst), st')" by (cases r) auto
    show ?thesis
    proof (cases "exhausted \<or> increaseKey lst = None")
      case True
      then have "mainLoop pass accOrigin accountRange st = Some (Inr st')"
        using Inr r by (subst mainLoop.simps) auto
      with True Inr r show ?thesis
        unfolding g using increaseKey_None[of lst] by (auto simp: finish_result)
    next
      case False
      then obtain k where k: "increaseKey lst = Some k" and ne: "\<not> exhausted" by auto
      then have "mainLoop pass accOrigin accountRange st = mainLoop pass (Some k) accountCheckRange st'"
        using Inr r by (subst mainLoop.simps) simp
      with False Inr r k show ?thesis
        unfolding g using increaseKey_None[of lst]
        by (auto simp: finish_result split: option.splits sum.splits)
    qed
  qed
next
  note g = generate_after_init[OF assms, of pass batchWrite]
  show "generate pass batchWrite st = Some res \<longleftrightarrow>
            (\<exists>n x. runPasses pass n accOrigin accountRange st = Some x
               \<and> res = (case x of
                          Inl err \<Rightarrow> Inl err
                        | Inr st' \<Rightarrow>
                            (case batchWrite (world st') of
                               Inl err \<Rightarrow> Inl err
                             | Inr w \<Rightarrow>
                                 Inr \<lparr>genMarker = None, genPendingOpen = False,
                                      persisted = Some \<lparr>Done = True, Marker = None\<rparr>,
                                      world = w\<rparr>)))"
  proof
    assume a: "generate pass batchWrite st = Some res"
    then obtain x where x: "mainLoop pass accOrigin accountRange st = Some x"
      unfolding g by (auto split: option.splits)
    from mainLoop_runPasses[OF x] obtain n where n: "runPasses pass n accOrigin accountRange st = Some x" ..
    from a x have "res = (case x of Inl err \<Rightarrow> Inl err | Inr st' \<Rightarrow> finish batchWrite st')"
      unfolding g by (auto split: sum.splits)
    with n show "\<exists>n x. runPasses pass n accOrigin accountRange st = Some x
               \<and> res = (case x of
                          Inl err \<Rightarrow> Inl err
                        | Inr st' \<Rightarrow>
                            (case batchWrite (world st') of
                               Inl err \<Rightarrow> Inl err
                             | Inr w \<Rightarrow>
                                 Inr \<lparr>genMarker = None, genPendingOpen = False,
                                      persisted = Some \<lparr>Done = True, Marker = None\<rparr>,
                                      world = w\<rparr>))"
      unfolding finish_result by blast
  next
    assume "\<exists>n x. runPasses pass n accOrigin accountRange st = Some x
               \<and> res = (case x of
                          Inl err \<Rightarrow> Inl err
                        | Inr st' \<Rightarrow>
                            (case batchWrite (world st') of
                               Inl err \<Rightarrow> Inl err
                             | Inr w \<Rightarrow>
                                 Inr \<lparr>genMarker = None, genPendingOpen = False,
                                      persisted = Some \<lparr>Done = True, Marker = None\<rparr>,
                                      world = w\<rparr>))"
    then obtain n x where n: "runPasses pass n accOrigin accountRange st = Some x"
      and res: "res = (case x of Inl err \<Rightarrow> Inl err | Inr st' \<Rightarrow> finish batchWrite st')"
      unfolding finish_result by blast
    from runPasses_mainLoop[OF n] res show "generate pass batchWrite st = Some res"
      unfolding g by (auto split: sum.splits)
  qed
qed

theorem generate_finishes_on_either_witness:
  "generateInit (genMarker demoGen) = Inr (None, 128)
   \<and> generate demoPass Inr demoGen =
       Some (Inr \<lparr>genMarker = None, genPendingOpen = False,
                    persisted = Some \<lparr>Done = True, Marker = None\<rparr>, world = 256\<rparr>)
   \<and> generate (\<lambda>accOrigin accountRange gs. Inl ErrAborted) Inr demoGen = Some (Inl ErrAborted)
   \<and> generate demoPass (\<lambda>w. Inl (LibError 2)) demoGen = Some (Inl (LibError 2))"
proof (intro conjI)
  show i: "generateInit (genMarker demoGen) = Inr (None, 128)"
    by (simp add: generateInit_def demoGen_def accountCheckRange_def)
  have k: "increaseKey (Some [0, 255 :: byte]) = Some [1, 0]"
    by (simp add: increaseKey_def)
  have r: "runPasses demoPass (Suc (Suc 0)) None 128 demoGen =
           Some (Inr \<lparr>genMarker = None, genPendingOpen = True, persisted = None, world = 256\<rparr>)"
    by (simp add: demoPass_def demoGen_def k accountCheckRange_def)
  show "generate demoPass Inr demoGen =
       Some (Inr \<lparr>genMarker = None, genPendingOpen = False,
                    persisted = Some \<lparr>Done = True, Marker = None\<rparr>, world = 256\<rparr>)"
  proof -
    have "\<exists>n x. runPasses demoPass n None 128 demoGen = Some x
            \<and> Inr \<lparr>genMarker = None, genPendingOpen = False,
                    persisted = Some \<lparr>Done = True, Marker = None\<rparr>, world = 256\<rparr> =
                (case x of
                   Inl err \<Rightarrow> Inl err
                 | Inr st' \<Rightarrow>
                     (case Inr (world st') of
                        Inl err \<Rightarrow> Inl err
                      | Inr w \<Rightarrow>
                          Inr \<lparr>genMarker = None, genPendingOpen = False,
                               persisted = Some \<lparr>Done = True, Marker = None\<rparr>,
                               world = w\<rparr>))"
      by (intro exI[of _ "Suc (Suc 0)"]
                exI[of _ "Inr \<lparr>genMarker = None, genPendingOpen = True, persisted = None,
                               world = 256\<rparr>"])
         (simp add: r del: runPasses.simps)
    then show ?thesis
      using generate_finishes_on_either[OF i, of demoPass Inr, THEN conjunct2] by blast
  qed
  show "generate (\<lambda>accOrigin accountRange gs. Inl ErrAborted) Inr demoGen = Some (Inl ErrAborted)"
    using generate_finishes_on_either[OF i, of "\<lambda>accOrigin accountRange gs. Inl ErrAborted" Inr,
                                      THEN conjunct1]
    by simp
  show "generate demoPass (\<lambda>w. Inl (LibError 2)) demoGen = Some (Inl (LibError 2))"
  proof -
    have "\<exists>n x. runPasses demoPass n None 128 demoGen = Some x
            \<and> Inl (LibError 2) =
                (case x of
                   Inl err \<Rightarrow> Inl err
                 | Inr st' \<Rightarrow>
                     (case (Inl (LibError 2) :: error + int) of
                        Inl err \<Rightarrow> Inl err
                      | Inr w \<Rightarrow>
                          Inr \<lparr>genMarker = None, genPendingOpen = False,
                               persisted = Some \<lparr>Done = True, Marker = None\<rparr>,
                               world = w\<rparr>))"
      by (intro exI[of _ "Suc (Suc 0)"]
                exI[of _ "Inr \<lparr>genMarker = None, genPendingOpen = True, persisted = None,
                               world = 256\<rparr>"])
         (simp add: r del: runPasses.simps)
    then show ?thesis
      using generate_finishes_on_either[OF i, of demoPass "\<lambda>w. Inl (LibError 2)",
                                        THEN conjunct2] by blast
  qed
qed

text \<open>
  The claim C4 as stated asks for both conditions. A pass that reports \<open>exhausted\<close>
  with a last key of 32 zero bytes (whose successor does not overflow) finalises the
  generation, and so does a pass that is not exhausted but ends at the key of 32 bytes
  0xff.
\<close>

theorem generate_exhausted_alone_counterexample:
  "increaseKey (Some (replicate 32 0)) \<noteq> None
   \<and> generate (\<lambda>org rng gs. Inr ((True, Some (replicate 32 0)), gs)) Inr
        \<lparr>genMarker = Some [], genPendingOpen = True, persisted = None, world = ()\<rparr>
      = Some (Inr \<lparr>genMarker = None, genPendingOpen = False,
                    persisted = Some \<lparr>Done = True, Marker = None\<rparr>, world = ()\<rparr>)
   \<and> generate (\<lambda>org rng gs. Inr ((False, Some (replicate 32 255)), gs)) Inr
        \<lparr>genMarker = Some [], genPendingOpen = True, persisted = None, world = ()\<rparr>
      = Some (Inr \<lparr>genMarker = None, genPendingOpen = False,
                    persisted = Some \<lparr>Done = True, Marker = None\<rparr>, world = ()\<rparr>)"
proof (intro conjI)
  show "increaseKey (Some (replicate 32 0)) \<noteq> None"
    by (simp add: increaseKey_None)
next
  show "generate (\<lambda>org rng gs. Inr ((True, Some (replicate 32 0)), gs)) Inr
        \<lparr>genMarker = Some [], genPendingOpen = True, persisted = None, world = ()\<rparr>
      = Some (Inr \<lparr>genMarker = None, genPendingOpen = False,
                    persisted = Some \<lparr>Done = True, Marker = None\<rparr>, world = ()\<rparr>)"
    by (simp add: generate_def generateInit_def mainLoop.simps finish_def journalProgress_def)
next
  have "increaseKey (Some (replicate 32 255)) = None"
    by (simp add: increaseKey_None)
  then show "generate (\<lambda>org rng gs. Inr ((False, Some (replicate 32 255)), gs)) Inr
        \<lparr>genMarker = Some [], genPendingOpen = True, persisted = None, world = ()\<rparr>
      = Some (Inr \<lparr>genMarker = None, genPendingOpen = False,
                    persisted = Some \<lparr>Done = True, Marker = None\<rparr>, world = ()\<rparr>)"
    by (simp add: generate_def generateInit_def mainLoop.simps finish_def journalProgress_def)
qed

section \<open>The start of the generator\<close>

text \<open>
  Claim C5, as amended. The account marker is nil for a nil or empty generator marker
  and the first 32 bytes of the marker otherwise; the first account range is 1 exactly
  when the marker is not empty (a marker of 32 bytes as well as one of 64 bytes), and
  128 exactly when the marker is nil or empty.
\<close>

theorem generateInit_resume:
  "generateInit None = Inr (None, accountCheckRange)
   \<and> generateInit (Some []) = Inr (None, accountCheckRange)
   \<and> (HashLength \<le> length m \<longrightarrow> generateInit (Some m) = Inr (Some (take HashLength m), 1))
   \<and> (generateInit marker = Inr (accMarker, accountRange) \<longrightarrow>
        (accountRange = 1 \<longleftrightarrow> marker \<noteq> None \<and> marker \<noteq> Some [])
        \<and> (accountRange = accountCheckRange \<longleftrightarrow> marker = None \<or> marker = Some []))"
  by (auto simp: generateInit_def HashLength_def accountCheckRange_def split: option.splits if_splits)

theorem generateInit_resume_witness:
  "generateInit (Some (replicate 32 7 @ replicate 32 9)) = Inr (Some (replicate 32 7), 1)
   \<and> generateInit (Some (replicate 32 7)) = Inr (Some (replicate 32 7), 1)"
  using generateInit_resume[of "replicate 32 7 @ replicate 32 9"] generateInit_resume[of "replicate 32 7"]
  by (simp add: HashLength_def)

text \<open>
  The claim C5 as stated gives a run resumed from a 32-byte marker the range 128; the
  code gives it 1.
\<close>

theorem generateInit_between_accounts_counterexample:
  "length (replicate 32 (0 :: byte)) = HashLength
   \<and> generateInit (Some (replicate 32 0)) = Inr (Some (replicate 32 0), 1)
   \<and> generateInit (Some (replicate 32 0)) \<noteq> Inr (Some (replicate 32 0), accountCheckRange)"
  by (simp add: generateInit_def HashLength_def accountCheckRange_def)

section \<open>Preparing a layer\<close>

lemma prepareLoop_Some_no_diff_parent:
  assumes "prepareLoop h r c = Some y"
  shows "\<not> (\<exists>dl p pl d. deref h r = Some dl \<and> parent dl = DiffLayer p
                \<and> deref h p = Some pl \<and> diffed pl = Some d)"
proof (rule prepareLoop.raw_induct[OF _ assms])
  fix f h' r' c' y'
  assume IH: "\<And>h r c y. f h r c = Some y \<Longrightarrow>
            \<not> (\<exists>dl p pl d. deref h r = Some dl \<and> parent dl = DiffLayer p
                \<and> deref h p = Some pl \<and> diffed pl = Some d)"
    and body: "(case deref h' r' of
                  None \<Rightarrow> Some (Inl Panic)
                | Some l \<Rightarrow>
                    (case parent l of
                       DiskLayer d \<Rightarrow> Some (Inr c')
                     | DiffLayer p \<Rightarrow>
                         (case deref h' p of
                            None \<Rightarrow> Some (Inl Panic)
                          | Some pl \<Rightarrow>
                              (case diffed pl of
                                 None \<Rightarrow> Some (Inl Panic)
                               | Some d \<Rightarrow> f h' r' (UnionInPlace c' d))))) = Some y'"
  show "\<not> (\<exists>dl p pl d. deref h' r' = Some dl \<and> parent dl = DiffLayer p
                \<and> deref h' p = Some pl \<and> diffed pl = Some d)"
  proof
    assume "\<exists>dl p pl d. deref h' r' = Some dl \<and> parent dl = DiffLayer p
                \<and> deref h' p = Some pl \<and> diffed pl = Some d"
    then obtain dl p pl d where a: "deref h' r' = Some dl" "parent dl = DiffLayer p"
      "deref h' p = Some pl" "diffed pl = Some d" by blast
    with body have "f h' r' (UnionInPlace c' d) = Some y'" by simp
    from IH[OF this] a show False by blast
  qed
qed

lemma prepareLoop_diverges:
  assumes "deref h r = Some dl" and "parent dl = DiffLayer p"
    and "deref h p = Some pl" and "diffed pl = Some d"
  shows "prepareLoop h r c = None"
proof (cases "prepareLoop h r c")
  case None
  then show ?thesis .
next
  case (Some y)
  from prepareLoop_Some_no_diff_parent[OF this] assms show ?thesis by blast
qed

lemma Prepare_diverges:
  assumes "deref h r = Some dl" and "parent dl = DiffLayer p"
    and "deref h p = Some pl" and "diffed pl = Some d" and "diffed dl = Some d0"
  shows "Prepare h r org = None"
  using assms prepareLoop_diverges[OF assms(1-4)]
  by (simp add: Prepare_def)

lemma Prepare_disk_parent:
  assumes "deref h r = Some dl" and "parent dl = DiskLayer dk" and "diffed dl = Some d0"
  shows "Prepare h r org = Some (Inr (h[r := dl\<lparr>cumulative := Some d0, origin := org\<rparr>]))"
  using assms by (simp add: Prepare_def prepareLoop.simps)

text \<open>
  Claim C2 fails on the code. On a store with a diff layer 1 over a diff layer 0 over
  the disk layer (a parent chain of length one), \<^verbatim>\<open>Prepare\<close> on layer 1 does not
  return, while the claim asks for the union \<open>{1, 2}\<close> of the two \<^verbatim>\<open>diffed\<close>
  filters. (By \<open>Prepare_diverges\<close> this is so for every layer whose parent is a diff
  layer; by \<open>Prepare_disk_parent\<close> the call returns when the parent is the disk layer.)
\<close>

theorem Prepare_diff_parent_does_not_return:
  "chain [demoLayer (DiskLayer demoDisk) {1}, demoLayer (DiffLayer 0) {2}] 1 1
   \<and> Prepare [demoLayer (DiskLayer demoDisk) {1}, demoLayer (DiffLayer 0) {2}] 1 (Some demoDisk) = None
   \<and> chainUnion [demoLayer (DiskLayer demoDisk) {1}, demoLayer (DiffLayer 0) {2}] 1 1 = {1, 2}"
proof (intro conjI)
  show "chain [demoLayer (DiskLayer demoDisk) {1}, demoLayer (DiffLayer 0) {2}] 1 1"
    by (simp add: deref_def demoLayer_def)
next
  show "Prepare [demoLayer (DiskLayer demoDisk) {1}, demoLayer (DiffLayer 0) {2}] 1 (Some demoDisk) = None"
    by (rule Prepare_diverges[where dl = "demoLayer (DiffLayer 0) {2}" and p = 0
          and pl = "demoLayer (DiskLayer demoDisk) {1}" and d = "{1}" and ?d0.0 = "{2}"])
       (simp_all add: deref_def demoLayer_def)
next
  show "chainUnion [demoLayer (DiskLayer demoDisk) {1}, demoLayer (DiffLayer 0) {2}] 1 1 = {1, 2}"
    by (auto simp add: deref_def demoLayer_def)
qed

section \<open>Reads on a stale layer\<close>

lemma accountRLP_stale:
  "deref h r = Some dl \<Longrightarrow> stale dl \<Longrightarrow> accountRLP h ms r hash = Some (Inl ErrSnapshotStale)"
  by (simp add: accountRLP.simps)

lemma storage_stale:
  "deref h r = Some dl \<Longrightarrow> stale dl \<Longrightarrow> storage h ms r a s = Some (Inl ErrSnapshotStale)"
  by (simp add: storage.simps)

text \<open>
  Claim C3 fails on the code. A stale layer whose \<^verbatim>\<open>cumulative\<close> filter misses the
  item passes the read to its origin disk layer before the stale flag is looked at: both
  \<^verbatim>\<open>AccountRLP\<close> and \<^verbatim>\<open>Storage\<close> succeed with the disk layer's answer. (On a filter
  hit the read fails with \<open>ErrSnapshotStale\<close>, see \<open>AccountRLP_stale_hit\<close>.)
\<close>

theorem stale_read_succeeds_on_bloom_miss:
  "stale ((demoLayer (DiskLayer demoDisk) {})\<lparr>stale := True, cumulative := Some {}, origin := Some demoDisk\<rparr>)
   \<and> AccountRLP demoBloom
        [(demoLayer (DiskLayer demoDisk) {})\<lparr>stale := True, cumulative := Some {}, origin := Some demoDisk\<rparr>]
        demoMaps 0 (replicate 32 0) = Some (Inr [1])
   \<and> Storage demoBloom
        [(demoLayer (DiskLayer demoDisk) {})\<lparr>stale := True, cumulative := Some {}, origin := Some demoDisk\<rparr>]
        demoMaps 0 (replicate 32 0) (replicate 32 0) = Some (Inr [2])"
  by (simp add: AccountRLP_def Storage_def deref_def demoLayer_def demoBloom_def demoDisk_def Contains_def)

lemma AccountRLP_stale_hit:
  assumes "deref h r = Some dl" and "stale dl" and "cumulative dl = Some c"
    and "Contains bp c (accountBloomHasher bp hash)"
  shows "AccountRLP bp h ms r hash = Some (Inl ErrSnapshotStale)"
  using assms by (simp add: AccountRLP_def accountRLP.simps)

section \<open>The fallback of a range step\<close>

lemma deleteLoop_deliver:
  "length ks = length vs \<Longrightarrow>
   deleteLoop cb ks s = deliver cb (spec_merge [] (zip ks vs)) s"
proof (induction ks arbitrary: vs s)
  case Nil
  then show ?case by simp
next
  case (Cons k ks)
  then obtain v vs' where vs: "vs = v # vs'" by (cases vs) auto
  with Cons show ?case by (simp split: sum.splits)
qed

lemma snapLoop_deliver:
  "length ks = length vs \<Longrightarrow>
   deliver cb (spec_merge ((k, v) # ts) (zip ks vs)) s =
     (case snapLoop cb k v ks vs s of
        Inl err \<Rightarrow> Inl err
      | Inr (write, ks', vs', s') \<Rightarrow>
          (case cb k (Some v) write False s' of
             Inl err \<Rightarrow> Inl err
           | Inr s'' \<Rightarrow> deliver cb (spec_merge ts (zip ks' vs')) s''))"
proof (induction ks arbitrary: vs s)
  case Nil
  then show ?case by (simp split: sum.splits)
next
  case (Cons k0 ks)
  then obtain v0 vs' where vs: "vs = v0 # vs'" by (cases vs) auto
  with Cons.prems have len: "length ks = length vs'" by simp
  show ?case
    using Cons.IH[OF len] by (simp add: vs split: sum.splits)
qed

lemma snapLoop_length:
  "length ks = length vs \<Longrightarrow> snapLoop cb k v ks vs s = Inr (write, ks', vs', s') \<Longrightarrow>
   length ks' = length vs'"
proof (induction ks arbitrary: vs s)
  case Nil
  then show ?case by simp
next
  case (Cons k0 ks)
  then obtain v0 vs0 where vs: "vs = v0 # vs0" by (cases vs) auto
  with Cons.prems have len: "length ks = length vs0" by simp
  from Cons.prems(2) Cons.IH[OF len] len show ?case
    by (auto simp: vs split: if_splits sum.splits)
qed

lemma upTo_Cons:
  "upTo lst ((k, v) # ts) =
     (if (case lst of None \<Rightarrow> False | Some l \<Rightarrow> l < k) then [] else (k, v) # upTo lst ts)"
  by (auto simp: upTo_def split: option.splits)

lemma trieLoop_deliver:
  "length ks = length vs \<Longrightarrow>
   (case trieLoop cb lst leaves ks vs s of
      Inl err \<Rightarrow> Inl err
    | Inr (tmore, ks', s') \<Rightarrow>
        (case deleteLoop cb ks' s' of
           Inl err \<Rightarrow> Inl err
         | Inr s'' \<Rightarrow> Inr (tmore, s''))) =
   (case deliver cb (spec_merge (upTo lst leaves) (zip ks vs)) s of
      Inl err \<Rightarrow> Inl err
    | Inr s'' \<Rightarrow> Inr (upTo lst leaves \<noteq> leaves, s''))"
proof (induction leaves arbitrary: ks vs s)
  case Nil
  then show ?case
    by (simp add: upTo_def deleteLoop_deliver[of ks vs] split: option.splits sum.splits)
next
  case (Cons e leaves)
  obtain k v where e: "e = (k, v)" by (cases e)
  show ?case
  proof (cases "case lst of None \<Rightarrow> False | Some l \<Rightarrow> l < k")
    case True
    then show ?thesis
      using Cons.prems by (simp add: e upTo_Cons deleteLoop_deliver[of ks vs] split: sum.splits)
  next
    case False
    show ?thesis
    proof (cases "snapLoop cb k v ks vs s")
      case (Inl err)
      then show ?thesis
        using False by (simp add: e upTo_Cons snapLoop_deliver[OF Cons.prems])
    next
      case (Inr res)
      obtain w ks' vs' s' where res: "res = (w, ks', vs', s')" by (cases res)
      from snapLoop_length[OF Cons.prems Inr[unfolded res]] have len: "length ks' = length vs'" .
      show ?thesis
      proof (cases "cb k (Some v) w False s'")
        case (Inl err)
        then show ?thesis
          using False Inr by (simp add: e upTo_Cons snapLoop_deliver[OF Cons.prems] res)
      next
        case (Inr s2)
        have ne: "(upTo lst (e # leaves) \<noteq> e # leaves) = (upTo lst leaves \<noteq> leaves)"
          using False by (simp add: e upTo_Cons)
        from Inr show ?thesis
          unfolding ne
          using False \<open>snapLoop cb k v ks vs s = Inr res\<close> Cons.IH[OF len, of s2]
          by (simp add: e upTo_Cons snapLoop_deliver[OF Cons.prems] res)
      qed
    qed
  qed
qed

lemma regenerate_deliver:
  "length ks = length vs \<Longrightarrow>
   regenerate cb lst (leaves, None) ks vs s =
     (case deliver cb (spec_merge (upTo lst leaves) (zip ks vs)) s of
        Inl err \<Rightarrow> Inl err
      | Inr s'' \<Rightarrow> Inr (upTo lst leaves \<noteq> leaves, s''))"
proof -
  assume len: "length ks = length vs"
  have "regenerate cb lst (leaves, None) ks vs s =
     (case trieLoop cb lst leaves ks vs s of
        Inl err \<Rightarrow> Inl err
      | Inr (tmore, ks', s') \<Rightarrow>
          (case deleteLoop cb ks' s' of
             Inl err \<Rightarrow> Inl err
           | Inr s'' \<Rightarrow> Inr (tmore, s'')))"
    by (simp add: regenerate_def split: sum.splits prod.splits)
  also note trieLoop_deliver[OF len]
  finally show ?thesis .
qed

lemma deliver_record: "deliver record_call es log = Inr (log @ es)"
  by (induction es arbitrary: log) (auto simp: record_call_def)

lemma spec_merge_keys:
  "fst ` set (spec_merge ts ss) = fst ` set ts \<union> fst ` set ss"
  by (induction ts ss rule: spec_merge.induct) auto

lemma spec_merge_sorted:
  "sorted_wrt (<) (map fst ts) \<Longrightarrow> sorted_wrt (<) (map fst ss) \<Longrightarrow>
   sorted_wrt (<) (map fst (spec_merge ts ss))"
proof (induction ts ss rule: spec_merge.induct)
  case 1
  then show ?case by simp
next
  case (2 sk sv ss)
  then show ?case
    using spec_merge_keys[of "[]" ss] by (auto simp: image_iff)
next
  case (3 tk tv ts)
  then show ?case
    using spec_merge_keys[of ts "[]"] by (auto simp: image_iff)
next
  case (4 tk tv ts sk sv ss)
  show ?case
  proof (cases "sk < tk")
    case True
    have "\<forall>k \<in> fst ` set (spec_merge ((tk, tv) # ts) ss). sk < k"
      unfolding spec_merge_keys using 4(4,5) True by (auto simp: image_iff) 
    with True 4 show ?thesis by (auto simp: image_iff)
  next
    case False
    note nlt = this
    show ?thesis
    proof (cases "sk = tk")
      case True
      have "\<forall>k \<in> fst ` set (spec_merge ts ss). tk < k"
        unfolding spec_merge_keys using 4(4,5) True by (auto simp: image_iff)
      with True nlt 4 show ?thesis by (auto simp: image_iff)
    next
      case False
      with nlt have lt: "tk < sk" by simp
      have "\<forall>k \<in> fst ` set (spec_merge ts ((sk, sv) # ss)). tk < k"
        unfolding spec_merge_keys using 4(4,5) lt by (auto simp: image_iff)
      with False nlt 4 show ?thesis by (auto simp: image_iff)
    qed
  qed
qed

lemma map_of_None_lt:
  "\<forall>k' \<in> fst ` set ss. k < k' \<Longrightarrow> map_of ss (k :: bytes) = None"
  by (induction ss) (auto simp: image_iff)

lemma writes_Cons_snap:
  assumes "\<forall>k \<in> fst ` set ts. k \<noteq> sk"
  shows "writes ts ((sk, sv) # ss) = writes ts ss"
  using assms by (auto simp: writes_def image_iff; force)

lemma spec_merge_events:
  "sorted_wrt (<) (map fst ts) \<Longrightarrow> sorted_wrt (<) (map fst ss) \<Longrightarrow>
   set (spec_merge ts ss) = writes ts ss \<union> deletes ts ss"
proof (induction ts ss rule: spec_merge.induct)
  case 1
  then show ?case by (simp add: writes_def deletes_def)
next
  case (2 sk sv ss)
  then show ?case by (auto simp: writes_def deletes_def)
next
  case (3 tk tv ts)
  then show ?case by (auto simp: writes_def deletes_def)
next
  case (4 tk tv ts sk sv ss)
  from 4(4) have tgt: "\<forall>k \<in> fst ` set ts. tk < k" and ts: "sorted_wrt (<) (map fst ts)"
    by (auto simp: image_iff)
  from 4(5) have sgt: "\<forall>k \<in> fst ` set ss. sk < k" and ss: "sorted_wrt (<) (map fst ss)"
    by (auto simp: image_iff)
  show ?case
  proof (cases "sk < tk")
    case True
    have ne: "\<forall>k \<in> fst ` set ((tk, tv) # ts). k \<noteq> sk"
      using tgt True by auto
    have "set (spec_merge ((tk, tv) # ts) ((sk, sv) # ss)) =
            insert (sk, None, False, True) (writes ((tk, tv) # ts) ss \<union> deletes ((tk, tv) # ts) ss)"
      using True 4(1)[OF True 4(4) ss] by simp
    also have "\<dots> = writes ((tk, tv) # ts) ((sk, sv) # ss) \<union> deletes ((tk, tv) # ts) ((sk, sv) # ss)"
      unfolding writes_Cons_snap[OF ne] using ne by (auto simp: deletes_def)
    finally show ?thesis .
  next
    case False
    note nlt = this
    show ?thesis
    proof (cases "sk = tk")
      case True
      have ne: "\<forall>k \<in> fst ` set ts. k \<noteq> sk" using tgt True by auto
      have nin: "tk \<notin> fst ` set ss" using sgt True by auto
      have "set (spec_merge ((tk, tv) # ts) ((sk, sv) # ss)) =
            insert (tk, Some tv, sv \<noteq> tv, False) (writes ts ss \<union> deletes ts ss)"
        using True nlt 4(2)[OF nlt True ts ss] by simp
      also have "\<dots> = writes ((tk, tv) # ts) ((sk, sv) # ss) \<union> deletes ((tk, tv) # ts) ((sk, sv) # ss)"
      proof -
        have w: "writes ((tk, tv) # ts) ((sk, sv) # ss) =
                   insert (tk, Some tv, sv \<noteq> tv, False) (writes ts ss)"
          using writes_Cons_snap[OF ne, of sv ss] True by (auto simp: writes_def)
        have d: "deletes ((tk, tv) # ts) ((sk, sv) # ss) = deletes ts ss"
          using True nin by (auto simp: deletes_def)
        show ?thesis unfolding w d by auto
      qed
      finally show ?thesis .
    next
      case False
      with nlt have lt: "tk < sk" by simp
      have none: "map_of ((sk, sv) # ss) tk = None"
        by (rule map_of_None_lt) (use lt sgt in auto)
      have nin: "tk \<notin> fst ` set ((sk, sv) # ss)" using sgt lt by auto
      have "set (spec_merge ((tk, tv) # ts) ((sk, sv) # ss)) =
            insert (tk, Some tv, True, False)
              (writes ts ((sk, sv) # ss) \<union> deletes ts ((sk, sv) # ss))"
        using False nlt 4(3)[OF nlt False ts 4(5)] by simp
      also have "\<dots> = writes ((tk, tv) # ts) ((sk, sv) # ss) \<union> deletes ((tk, tv) # ts) ((sk, sv) # ss)"
      proof -
        have w: "writes ((tk, tv) # ts) ((sk, sv) # ss) =
                   insert (tk, Some tv, True, False) (writes ts ((sk, sv) # ss))"
          using none by (auto simp: writes_def)
        have d: "deletes ((tk, tv) # ts) ((sk, sv) # ss) = deletes ts ((sk, sv) # ss)"
          using nin by (auto simp: deletes_def)
        show ?thesis unfolding w d by auto
      qed
      finally show ?thesis .
    qed
  qed
qed

lemma upTo_sorted:
  "sorted_wrt (<) (map fst leaves) \<Longrightarrow> sorted_wrt (<) (map fst (upTo lst leaves))"
proof -
  assume srt: "sorted_wrt (<) (map fst leaves)"
  have "\<exists>n. upTo lst leaves = take n leaves"
  proof (cases lst)
    case None
    then have "upTo lst leaves = take (length leaves) leaves" by (simp add: upTo_def)
    then show ?thesis ..
  next
    case (Some l)
    then have "upTo lst leaves = take (length (takeWhile (\<lambda>(k, v). k \<le> l) leaves)) leaves"
      by (simp add: upTo_def takeWhile_eq_take[symmetric])
    then show ?thesis ..
  qed
  then obtain n where "upTo lst leaves = take n leaves" ..
  then have "map fst (upTo lst leaves) = take n (map fst leaves)"
    by (simp add: take_map)
  with srt show ?thesis by (simp add: sorted_wrt_take)
qed

lemma upTo_filter:
  "sorted_wrt (<) (map fst leaves) \<Longrightarrow>
   upTo (Some l) leaves = filter (\<lambda>(k, v). k \<le> l) leaves"
proof (induction leaves)
  case Nil
  then show ?case by (simp add: upTo_def)
next
  case (Cons e leaves)
  obtain k v where e: "e = (k, v)" by (cases e)
  show ?case
  proof (cases "k \<le> l")
    case True
    with Cons show ?thesis by (simp add: e upTo_def)
  next
    case False
    with Cons.prems have "\<forall>e' \<in> set leaves. \<not> fst e' \<le> l"
      by (auto simp: e)
    then have "filter (\<lambda>(k, v). k \<le> l) leaves = []"
      by (auto simp: filter_empty_conv)
    with False show ?thesis by (simp add: e upTo_def)
  qed
qed

lemma append_less_append: "(p @ x < p @ y) = (x < (y :: bytes))"
  by (induction p) simp_all

lemma drop_prefix_less:
  assumes "take n a = p" and "take n b = p" and "a < (b :: bytes)"
  shows "drop n a < drop n b"
proof -
  have "a = p @ drop n a" and "b = p @ drop n b"
    using assms(1,2) append_take_drop_id[of n a] append_take_drop_id[of n b] by simp_all
  with assms(3) append_less_append[of p "drop n a" "drop n b"] show ?thesis by simp
qed

lemma NewIterator_sorted:
  "sorted_wrt (<) (map fst db) \<Longrightarrow> sorted_wrt (<) (map fst (NewIterator db prefix org))"
  by (simp add: NewIterator_def sorted_wrt_map sorted_wrt_filter)

lemma NewIterator_prefix:
  "e \<in> set (NewIterator db prefix org) \<Longrightarrow> take (length prefix) (fst e) = prefix"
  by (auto simp: NewIterator_def)

lemma batchEntries_sorted:
  "sorted_wrt (<) (map fst iter) \<Longrightarrow> sorted_wrt (<) (map fst (batchEntries prefix maxn iter))"
  by (simp add: batchEntries_def sorted_wrt_map sorted_wrt_filter sorted_wrt_take)

lemma batchEntries_subset: "set (batchEntries prefix maxn iter) \<subseteq> set iter"
  by (auto simp: batchEntries_def dest: in_set_takeD)

lemma batch_keys_sorted:
  assumes "sorted_wrt (<) (map fst db)"
  shows "sorted_wrt (<) (fst (collect prefix maxn cv (NewIterator db prefix org) [] []))"
proof -
  let ?B = "batchEntries prefix maxn (NewIterator db prefix org)"
  have srt: "sorted_wrt (\<lambda>x y. fst x < fst y) ?B"
    using batchEntries_sorted[OF NewIterator_sorted[OF assms], of prefix maxn prefix org]
    by (simp add: sorted_wrt_map)
  have pre: "\<And>e. e \<in> set ?B \<Longrightarrow> take (length prefix) (fst e) = prefix"
    using batchEntries_subset NewIterator_prefix by blast
  have "sorted_wrt (\<lambda>x y. drop (length prefix) (fst x) < drop (length prefix) (fst y)) ?B"
    by (rule sorted_wrt_mono_rel[OF _ srt]) (auto intro: drop_prefix_less dest: pre)
  then have "sorted_wrt (<) (map (\<lambda>(k, v). drop (length prefix) k) ?B)"
    by (simp add: sorted_wrt_map case_prod_unfold)
  then show ?thesis by (simp add: collect_closed_form)
qed

lemma proveRange_keys:
  assumes "proveRange lib db rt prefix org maxn cv = Inr (res, proved)"
  shows "keys res = fst (collect prefix maxn cv (NewIterator db prefix org) [] [])"
    and "length (keys res) = length (vals res)"
  using assms
  by (auto simp: proveRange_def collect_closed_form Let_def
           split: if_splits sum.splits option.splits prod.splits)

lemma generateRange_fallback:
  assumes prove: "proveRange lib db rt prefix org maxn cv = Inr (res, proved)"
    and invalid: "\<not> valid res"
    and trie: "(case (if length (keys res) > 0
                      then trieNewRelay lib rt (zip (keys res) (vals res))
                      else tr res) of
                  None \<Rightarrow> trieNew lib rt | Some t' \<Rightarrow> Inr t') = Inr t"
    and leaves: "NodeIterator lib t org = (leaves, None)"
  shows "generateRange lib db rt prefix org maxn cb cv s =
           (case deliver cb (spec_merge (upTo (resultLast res) leaves)
                               (zip (keys res) (vals res))) s of
              Inl err \<Rightarrow> Inl err
            | Inr s' \<Rightarrow>
                Inr ((upTo (resultLast res) leaves = leaves \<and> \<not> diskMore res,
                      resultLast res), s'))"
proof -
  have len: "length (keys res) = length (vals res)"
    using proveRange_keys(2)[OF prove] .
  have "generateRange lib db rt prefix org maxn cb cv s =
          (case regenerate cb (resultLast res) (leaves, None) (keys res) (vals res) s of
             Inl err \<Rightarrow> Inl err
           | Inr (tmore, s') \<Rightarrow> Inr ((\<not> tmore \<and> \<not> diskMore res, resultLast res), s'))"
    using prove invalid trie leaves by (simp add: generateRange_def Let_def)
  then show ?thesis
    unfolding regenerate_deliver[OF len] by (simp split: sum.splits)
qed

text \<open>
  Claim C7. When the range proof fails and the trie is opened and iterated without
  error, \<^verbatim>\<open>generateRange\<close> (on a database and a trie iteration that are ascending
  by key) delivers exactly the merge of the trie entries up to \<open>last\<close> (inclusive) with
  the snapshot batch: the keys of the calls are strictly ascending; every trie entry
  gets one call with the trie value, \<open>delete = false\<close> and \<open>write\<close> set unless the
  snapshot has the same value under that key (so \<open>write\<close> is set for a key the snapshot
  lacks); every snapshot key without a trie entry in the range gets one call with a nil
  value, \<open>write = false\<close> and \<open>delete = true\<close>. The trie entries up to \<open>last\<close>
  are those with a key \<open>\<le> last\<close>, all of them when \<open>last\<close> is nil.
\<close>

theorem generateRange_regenerates_in_order:
  assumes "proveRange lib db rt prefix org maxn cv = Inr (res, proved)"
    and "\<not> valid res"
    and "(case (if length (keys res) > 0
                then trieNewRelay lib rt (zip (keys res) (vals res))
                else tr res) of
            None \<Rightarrow> trieNew lib rt | Some t' \<Rightarrow> Inr t') = Inr t"
    and "NodeIterator lib t org = (leaves, None)"
    and "sorted_wrt (<) (map fst leaves)"
    and "sorted_wrt (<) (map fst db)"
  shows "\<exists>evs.
           generateRange lib db rt prefix org maxn record_call cv [] =
             Inr ((upTo (resultLast res) leaves = leaves \<and> \<not> diskMore res, resultLast res), evs)
         \<and> evs = spec_merge (upTo (resultLast res) leaves) (zip (keys res) (vals res))
         \<and> sorted_wrt (<) (map fst evs)
         \<and> set evs =
             (\<lambda>(k, v). (k, Some v, map_of (zip (keys res) (vals res)) k \<noteq> Some v, False))
                ` set (upTo (resultLast res) leaves)
             \<union> (\<lambda>k. (k, None, False, True))
                ` (set (keys res) - fst ` set (upTo (resultLast res) leaves))
         \<and> upTo (resultLast res) leaves =
             (case resultLast res of
                None \<Rightarrow> leaves
              | Some l \<Rightarrow> filter (\<lambda>(k, v). k \<le> l) leaves)"
proof -
  let ?T = "upTo (resultLast res) leaves"
  let ?S = "zip (keys res) (vals res)"
  have len: "length (keys res) = length (vals res)"
    using proveRange_keys(2)[OF assms(1)] .
  have ks: "map fst ?S = keys res" using len by simp
  have "sorted_wrt (<) (keys res)"
    using batch_keys_sorted[OF assms(6)] proveRange_keys(1)[OF assms(1)] by simp
  then have sS: "sorted_wrt (<) (map fst ?S)" by (simp only: ks)
  have sT: "sorted_wrt (<) (map fst ?T)" by (rule upTo_sorted[OF assms(5)])
  have run: "generateRange lib db rt prefix org maxn record_call cv [] =
               Inr ((?T = leaves \<and> \<not> diskMore res, resultLast res), spec_merge ?T ?S)"
    by (simp add: generateRange_fallback[OF assms(1-4)] deliver_record)
  have ev: "set (spec_merge ?T ?S) = writes ?T ?S \<union> deletes ?T ?S"
    by (rule spec_merge_events[OF sT sS])
  have "fst ` set ?S = set (keys res)"
    using ks by (metis set_map)
  with ev have "set (spec_merge ?T ?S) =
             (\<lambda>(k, v). (k, Some v, map_of ?S k \<noteq> Some v, False)) ` set ?T
             \<union> (\<lambda>k. (k, None, False, True)) ` (set (keys res) - fst ` set ?T)"
    by (simp add: writes_def deletes_def)
  moreover have "?T = (case resultLast res of
                None \<Rightarrow> leaves
              | Some l \<Rightarrow> filter (\<lambda>(k, v). k \<le> l) leaves)"
    using upTo_filter[OF assms(5)] by (cases "resultLast res") (simp_all add: upTo_def)
  ultimately show ?thesis
    using run spec_merge_sorted[OF sT sS] by blast
qed

lemma demoDb_collect:
  "collect [1] 128 None (NewIterator demoDb [1] (Some (replicate 32 0))) [] [] =
     ([demoKey 1, demoKey 2, demoKey 4], [[8], [5], [6]], False)"
  by code_simp

lemma demoDb_proveRange:
  "proveRange failingLib demoDb [] [1] (Some (replicate 32 0)) 128 None =
     Inr (\<lparr>keys = [demoKey 1, demoKey 2, demoKey 4], vals = [[8], [5], [6]], diskMore = False,
            trieMore = False, proofErr = Some (LibError 0), tr = Some ()\<rparr>,
          [replicate 32 0, demoKey 4])"
  by (simp add: proveRange_def demoDb_collect failingLib_def lastKey_def)

lemma demo_sorted:
  "sorted_wrt (<) (map fst demoLeaves)" "sorted_wrt (<) (map fst demoDb)"
  by code_simp+

lemma demo_merge:
  "spec_merge (upTo (Some (demoKey 4)) demoLeaves)
     [(demoKey 1, [8]), (demoKey 2, [5]), (demoKey 4, [6])] =
   [(demoKey 1, None, False, True), (demoKey 2, Some [5], False, False),
    (demoKey 3, Some [7], True, False), (demoKey 4, Some [9], True, False)]"
  by code_simp

lemma demo_upTo: "upTo (Some (demoKey 4)) demoLeaves \<noteq> demoLeaves"
  by code_simp

theorem generateRange_regenerates_in_order_witness:
  "generateRange failingLib demoDb [] [1] (Some (replicate 32 0)) 128 record_call None [] =
     Inr ((False, Some (demoKey 4)),
          [(demoKey 1, None, False, True), (demoKey 2, Some [5], False, False),
           (demoKey 3, Some [7], True, False), (demoKey 4, Some [9], True, False)])"
proof -
  let ?res = "\<lparr>keys = [demoKey 1, demoKey 2, demoKey 4], vals = [[8], [5], [6]], diskMore = False,
            trieMore = False, proofErr = Some (LibError 0), tr = Some ()\<rparr> :: unit proofResult"
  have a2: "\<not> valid ?res" by (simp add: valid_def)
  have a3: "(case (if length (keys ?res) > 0
                then trieNewRelay failingLib [] (zip (keys ?res) (vals ?res))
                else tr ?res) of
            None \<Rightarrow> trieNew failingLib [] | Some t' \<Rightarrow> Inr t') = Inr ()"
    by (simp add: failingLib_def)
  have a4: "NodeIterator failingLib () (Some (replicate 32 0)) = (demoLeaves, None)"
    by (simp add: failingLib_def)
  have l: "resultLast ?res = Some (demoKey 4)"
    by (simp add: resultLast_def lastKey_def)
  from generateRange_regenerates_in_order[OF demoDb_proveRange a2 a3 a4 demo_sorted]
  show ?thesis
    using demo_upTo by (simp add: l demo_merge)
qed

section \<open>Flattening\<close>

lemma copyLoop_nil:
  "copyLoop src None ks ms =
     (if \<exists>k \<in> set ks. flatMap ms src k \<noteq> None then Inl Panic else Inr ms)"
  by (induction ks) (auto split: option.splits)

lemma copyLoop_same:
  "copyLoop src (Some src) ks ms = Inr ms"
proof (induction ks)
  case Nil
  show ?case by simp
next
  case (Cons k ks)
  show ?case
  proof (cases "flatMap ms src k")
    case None
    with Cons show ?thesis by simp
  next
    case (Some data)
    then have "(flatMap ms src)(k \<mapsto> data) = flatMap ms src" by (rule map_upd_triv)
    then have "ms\<lparr>flatMap := (flatMap ms)(src := (flatMap ms src)(k \<mapsto> data))\<rparr> = ms"
      by simp
    with Cons Some show ?thesis by simp
  qed
qed

lemma copyLoop_other:
  "d \<noteq> src \<Longrightarrow>
   copyLoop src (Some d) ks ms =
     Inr (ms\<lparr>flatMap := (flatMap ms)(d := flatMap ms d ++ (flatMap ms src |` set ks))\<rparr>)"
proof (induction ks arbitrary: ms)
  case Nil
  show ?case by simp
next
  case (Cons k ks)
  note ne = Cons.prems
  show ?case
  proof (cases "flatMap ms src k")
    case None
    have e: "flatMap ms src |` set (k # ks) = flatMap ms src |` set ks"
      using None by (auto simp: restrict_map_def fun_eq_iff)
    have "copyLoop src (Some d) (k # ks) ms = copyLoop src (Some d) ks ms"
      using None by simp
    also note Cons.IH[OF ne, of ms]
    finally show ?thesis unfolding e .
  next
    case (Some data)
    define ms' where "ms' = ms\<lparr>flatMap := (flatMap ms)(d := (flatMap ms d)(k \<mapsto> data))\<rparr>"
    have f: "flatMap ms' d = (flatMap ms d)(k \<mapsto> data)" "flatMap ms' src = flatMap ms src"
      using ne by (simp_all add: ms'_def)
    have e: "(flatMap ms d)(k \<mapsto> data) ++ (flatMap ms src |` set ks)
          = flatMap ms d ++ (flatMap ms src |` set (k # ks))"
      using Some by (auto simp: map_add_def restrict_map_def fun_eq_iff split: option.splits)
    have r: "ms'\<lparr>flatMap := (flatMap ms')(d := m)\<rparr> = ms\<lparr>flatMap := (flatMap ms)(d := m)\<rparr>" for m
      by (simp add: ms'_def)
    have "copyLoop src (Some d) (k # ks) ms = copyLoop src (Some d) ks ms'"
      using Some by (simp add: ms'_def)
    also note Cons.IH[OF ne, of ms']
    finally show ?thesis unfolding f e r .
  qed
qed

lemma copyLoop_result:
  assumes "set ks = dom (flatMap ms src)"
  shows "copyLoop src (Some d) ks ms =
           Inr (ms\<lparr>flatMap := (flatMap ms)(d := flatMap ms d ++ flatMap ms src)\<rparr>)"
proof (cases "d = src")
  case True
  have "(flatMap ms)(src := flatMap ms src ++ flatMap ms src) = flatMap ms"
    by (auto simp: fun_eq_iff map_add_def split: option.splits)
  with True show ?thesis by (simp add: copyLoop_same)
next
  case False
  have "flatMap ms src |` set ks = flatMap ms src"
    unfolding assms by (rule ext) (simp add: restrict_map_def domIff)
  with copyLoop_other[OF False, of ks ms] show ?thesis by simp
qed

lemma storageLoop_nil:
  "storageLoop ord src None ks ms =
     (if \<exists>k \<in> set ks. nestedMap ms src k \<noteq> None then Inl Panic else Inr ms)"
  by (induction ks) (auto split: option.splits)

lemma loopInv_start: "loopInv ms0 src d {} ms0"
  by (simp add: loopInv_def fun_eq_iff)

lemma storageLoop_step:
  assumes ne: "d \<noteq> src"
    and inj0: "\<forall>a a' x. nestedMap ms0 d a = Some (Some x) \<and>
                nestedMap ms0 d a' = Some (Some x) \<longrightarrow> a = a'"
    and dis0: "\<forall>a a' y. nestedMap ms0 src a = Some (Some y) \<longrightarrow>
                nestedMap ms0 d a' \<noteq> Some (Some y)"
    and enum0: "\<forall>a y. nestedMap ms0 src a = Some (Some y) \<longrightarrow>
                 set (flatOrder ord (flatMap ms0 y)) = dom (flatMap ms0 y)"
    and inv: "loopInv ms0 src d A ms" and a0: "a0 \<notin> A"
  shows "\<exists>ms1. storageLoop ord src (Some d) (a0 # rest) ms = storageLoop ord src (Some d) rest ms1
            \<and> loopInv ms0 src d (insert a0 A) ms1"
proof -
  from inj0 have inj: "\<And>a a' x. nestedMap ms0 d a = Some (Some x) \<Longrightarrow>
                nestedMap ms0 d a' = Some (Some x) \<Longrightarrow> a = a'" by blast
  from dis0 have dis: "\<And>a a' y. nestedMap ms0 src a = Some (Some y) \<Longrightarrow>
                nestedMap ms0 d a' \<noteq> Some (Some y)" by blast
  from enum0 have enum: "\<And>a y. nestedMap ms0 src a = Some (Some y) \<Longrightarrow>
                 set (flatOrder ord (flatMap ms0 y)) = dom (flatMap ms0 y)" by blast
  from inv have nm: "nestedMap ms =
       (nestedMap ms0)
         (d := (\<lambda>a. if a \<in> A then mergedRef (nestedMap ms0 d a) (nestedMap ms0 src a)
                     else nestedMap ms0 d a))"
    and mg: "\<And>a x y. a \<in> A \<Longrightarrow> nestedMap ms0 d a = Some (Some x) \<Longrightarrow>
               nestedMap ms0 src a = Some (Some y) \<Longrightarrow> flatMap ms x = flatMap ms0 x ++ flatMap ms0 y"
    and fr: "\<And>z. \<not> (\<exists>a y. a \<in> A \<and> nestedMap ms0 d a = Some (Some z)
                        \<and> nestedMap ms0 src a = Some (Some y)) \<Longrightarrow> flatMap ms z = flatMap ms0 z"
    unfolding loopInv_def by blast+
  have src: "nestedMap ms src = nestedMap ms0 src" using ne by (simp add: nm)
  have da0: "nestedMap ms d a0 = nestedMap ms0 d a0" using a0 by (simp add: nm)
  show ?thesis
  proof (cases "nestedMap ms0 src a0")
    case None
    have "storageLoop ord src (Some d) (a0 # rest) ms = storageLoop ord src (Some d) rest ms"
      by (simp add: src None)
    moreover have "loopInv ms0 src d (insert a0 A) ms"
      unfolding loopInv_def
    proof (intro conjI allI impI)
      show "nestedMap ms =
       (nestedMap ms0)
         (d := (\<lambda>a. if a \<in> insert a0 A then mergedRef (nestedMap ms0 d a) (nestedMap ms0 src a)
                     else nestedMap ms0 d a))"
        unfolding nm using None by (auto simp: fun_eq_iff mergedRef_def)
    next
      fix a x y
      assume "a \<in> insert a0 A \<and> nestedMap ms0 d a = Some (Some x) \<and> nestedMap ms0 src a = Some (Some y)"
      with None have "a \<in> A" "nestedMap ms0 d a = Some (Some x)" "nestedMap ms0 src a = Some (Some y)"
        by auto
      then show "flatMap ms x = flatMap ms0 x ++ flatMap ms0 y" by (rule mg)
    next
      fix z
      assume "\<not> (\<exists>a y. a \<in> insert a0 A \<and> nestedMap ms0 d a = Some (Some z)
                        \<and> nestedMap ms0 src a = Some (Some y))"
      then have "\<not> (\<exists>a y. a \<in> A \<and> nestedMap ms0 d a = Some (Some z)
                        \<and> nestedMap ms0 src a = Some (Some y))" by blast
      then show "flatMap ms z = flatMap ms0 z" by (rule fr)
    qed
    ultimately show ?thesis by blast
  next
    case (Some storage')
    note st = this
    show ?thesis
    proof (cases "\<exists>x y. nestedMap ms0 d a0 = Some (Some x) \<and> storage' = Some y")
      case False
      define ms1 where
        "ms1 = ms\<lparr>nestedMap := (nestedMap ms)(d := (nestedMap ms d)(a0 \<mapsto> storage'))\<rparr>"
      have "storageLoop ord src (Some d) (a0 # rest) ms = storageLoop ord src (Some d) rest ms1"
        using False by (auto simp: src st da0 ms1_def split: option.splits)
      moreover have "loopInv ms0 src d (insert a0 A) ms1"
        unfolding loopInv_def
      proof (intro conjI allI impI)
        have "mergedRef (nestedMap ms0 d a0) (nestedMap ms0 src a0) = Some storage'"
          using False by (auto simp: mergedRef_def st split: option.splits)
        then show "nestedMap ms1 =
         (nestedMap ms0)
           (d := (\<lambda>a. if a \<in> insert a0 A then mergedRef (nestedMap ms0 d a) (nestedMap ms0 src a)
                       else nestedMap ms0 d a))"
          by (auto simp: ms1_def nm fun_eq_iff)
      next
        fix a x y
        assume h: "a \<in> insert a0 A \<and> nestedMap ms0 d a = Some (Some x) \<and> nestedMap ms0 src a = Some (Some y)"
        with False st have "a \<noteq> a0" by auto
        with h have "a \<in> A" "nestedMap ms0 d a = Some (Some x)" "nestedMap ms0 src a = Some (Some y)"
          by auto
        then have "flatMap ms x = flatMap ms0 x ++ flatMap ms0 y" by (rule mg)
        then show "flatMap ms1 x = flatMap ms0 x ++ flatMap ms0 y" by (simp add: ms1_def)
      next
        fix z
        assume "\<not> (\<exists>a y. a \<in> insert a0 A \<and> nestedMap ms0 d a = Some (Some z)
                          \<and> nestedMap ms0 src a = Some (Some y))"
        then have "\<not> (\<exists>a y. a \<in> A \<and> nestedMap ms0 d a = Some (Some z)
                          \<and> nestedMap ms0 src a = Some (Some y))" by blast
        then have "flatMap ms z = flatMap ms0 z" by (rule fr)
        then show "flatMap ms1 z = flatMap ms0 z" by (simp add: ms1_def)
      qed
      ultimately show ?thesis by blast
    next
      case True
      then obtain x y where x: "nestedMap ms0 d a0 = Some (Some x)" and y: "storage' = Some y"
        by blast
      from st y have sy: "nestedMap ms0 src a0 = Some (Some y)" by simp
      have fy: "flatMap ms y = flatMap ms0 y"
      proof (rule fr)
        show "\<not> (\<exists>a y'. a \<in> A \<and> nestedMap ms0 d a = Some (Some y)
                          \<and> nestedMap ms0 src a = Some (Some y'))"
          using dis[OF sy] by blast
      qed
      have fx: "flatMap ms x = flatMap ms0 x"
      proof (rule fr)
        show "\<not> (\<exists>a y'. a \<in> A \<and> nestedMap ms0 d a = Some (Some x)
                          \<and> nestedMap ms0 src a = Some (Some y'))"
          using inj[OF x] a0 by blast
      qed
      define ms' where "ms' = ms\<lparr>flatMap := (flatMap ms)(x := flatMap ms x ++ flatMap ms y)\<rparr>"
      define ms1 where
        "ms1 = ms'\<lparr>nestedMap := (nestedMap ms')(d := (nestedMap ms' d)(a0 \<mapsto> Some x))\<rparr>"
      have "set (flatOrder ord (flatMap ms y)) = dom (flatMap ms y)"
        unfolding fy by (rule enum[OF sy])
      then have cl: "copyLoop y (Some x) (flatOrder ord (flatMap ms y)) ms = Inr ms'"
        unfolding ms'_def by (rule copyLoop_result)
      have "storageLoop ord src (Some d) (a0 # rest) ms = storageLoop ord src (Some d) rest ms1"
        by (simp add: src st da0 x y cl ms1_def)
      moreover have "loopInv ms0 src d (insert a0 A) ms1"
        unfolding loopInv_def
      proof (intro conjI allI impI)
        have "mergedRef (nestedMap ms0 d a0) (nestedMap ms0 src a0) = Some (Some x)"
          by (simp add: mergedRef_def x sy)
        then show "nestedMap ms1 =
         (nestedMap ms0)
           (d := (\<lambda>a. if a \<in> insert a0 A then mergedRef (nestedMap ms0 d a) (nestedMap ms0 src a)
                       else nestedMap ms0 d a))"
          by (auto simp: ms1_def ms'_def nm fun_eq_iff)
      next
        fix a x' y'
        assume h: "a \<in> insert a0 A \<and> nestedMap ms0 d a = Some (Some x') \<and> nestedMap ms0 src a = Some (Some y')"
        show "flatMap ms1 x' = flatMap ms0 x' ++ flatMap ms0 y'"
        proof (cases "a = a0")
          case True
          with h x sy have "x' = x" "y' = y" by auto
          then show ?thesis by (simp add: ms1_def ms'_def fx fy)
        next
          case False
          with h have aA: "a \<in> A" and dx: "nestedMap ms0 d a = Some (Some x')"
            and sy': "nestedMap ms0 src a = Some (Some y')" by auto
          from inj[OF dx] x False have "x' \<noteq> x" by blast
          moreover have "flatMap ms x' = flatMap ms0 x' ++ flatMap ms0 y'"
            using aA dx sy' by (rule mg)
          ultimately show ?thesis by (simp add: ms1_def ms'_def)
        qed
      next
        fix z
        assume h: "\<not> (\<exists>a y. a \<in> insert a0 A \<and> nestedMap ms0 d a = Some (Some z)
                          \<and> nestedMap ms0 src a = Some (Some y))"
        then have "\<not> (\<exists>a y. a \<in> A \<and> nestedMap ms0 d a = Some (Some z)
                          \<and> nestedMap ms0 src a = Some (Some y))" by blast
        then have "flatMap ms z = flatMap ms0 z" by (rule fr)
        moreover from h x sy have "z \<noteq> x" by blast
        ultimately show "flatMap ms1 z = flatMap ms0 z" by (simp add: ms1_def ms'_def)
      qed
      ultimately show ?thesis by blast
    qed
  qed
qed

lemma storageLoop_inv:
  assumes ne: "d \<noteq> src"
    and inj0: "\<forall>a a' x. nestedMap ms0 d a = Some (Some x) \<and>
                nestedMap ms0 d a' = Some (Some x) \<longrightarrow> a = a'"
    and dis0: "\<forall>a a' y. nestedMap ms0 src a = Some (Some y) \<longrightarrow>
                nestedMap ms0 d a' \<noteq> Some (Some y)"
    and enum0: "\<forall>a y. nestedMap ms0 src a = Some (Some y) \<longrightarrow>
                 set (flatOrder ord (flatMap ms0 y)) = dom (flatMap ms0 y)"
  shows "distinct ks \<Longrightarrow> set ks \<inter> A = {} \<Longrightarrow> loopInv ms0 src d A ms \<Longrightarrow>
         \<exists>ms2. storageLoop ord src (Some d) ks ms = Inr ms2 \<and> loopInv ms0 src d (A \<union> set ks) ms2"
proof (induction ks arbitrary: A ms)
  case Nil
  then show ?case by simp
next
  case (Cons a0 ks)
  from Cons.prems have a0: "a0 \<notin> A" and d: "distinct ks" and i: "set ks \<inter> insert a0 A = {}"
    by auto
  from storageLoop_step[OF ne inj0 dis0 enum0 Cons.prems(3) a0, where rest = ks]
  obtain ms1 where s: "storageLoop ord src (Some d) (a0 # ks) ms = storageLoop ord src (Some d) ks ms1"
    and inv1: "loopInv ms0 src d (insert a0 A) ms1" by blast
  from Cons.IH[OF d i inv1] obtain ms2 where
    "storageLoop ord src (Some d) ks ms1 = Inr ms2" and "loopInv ms0 src d (insert a0 A \<union> set ks) ms2"
    by blast
  with s show ?case by auto
qed

lemma copyLoop_error: "copyLoop src dst ks ms = Inl err \<Longrightarrow> err = Panic"
  by (induction ks arbitrary: ms) (auto split: option.splits)

lemma storageLoop_error: "storageLoop ord src dst ks ms = Inl err \<Longrightarrow> err = Panic"
proof (induction ks arbitrary: ms)
  case Nil
  then show ?case by simp
next
  case (Cons k ks)
  then show ?case
    by (auto split: option.splits sum.splits dest: copyLoop_error)
qed

lemma flattenInto_error: "flattenInto ord h ms r p = Inl err \<Longrightarrow> err = Panic"
  by (auto simp: flattenInto_def split: option.splits sum.splits if_splits
           dest: copyLoop_error storageLoop_error)

lemma upd_same: "ms\<lparr>flatMap := flatMap ms\<rparr> = ms"
  by simp

lemma accounts_part:
  assumes en: "enumerated ord ms dl"
  shows "(case accountData dl of
            None \<Rightarrow> Inr ms
          | Some accounts \<Rightarrow>
              copyLoop accounts (accountData par) (flatOrder ord (flatMap ms accounts)) ms) =
         (if accountData par = None \<and> accountsOf ms (accountData dl) \<noteq> Map.empty then Inl Panic
          else Inr (case accountData par of
                      None \<Rightarrow> ms
                    | Some pa \<Rightarrow>
                        ms\<lparr>flatMap := (flatMap ms)(pa := flatMap ms pa
                                                     ++ accountsOf ms (accountData dl))\<rparr>))"
proof (cases "accountData dl")
  case None
  then show ?thesis by (simp add: accountsOf_def split: option.splits)
next
  case (Some ca)
  with en have ks: "set (flatOrder ord (flatMap ms ca)) = dom (flatMap ms ca)"
    by (simp add: enumerated_def)
  show ?thesis
  proof (cases "accountData par")
    case None
    have "(\<exists>k \<in> set (flatOrder ord (flatMap ms ca)). flatMap ms ca k \<noteq> None)
          \<longleftrightarrow> flatMap ms ca \<noteq> Map.empty"
      unfolding ks by (auto simp: fun_eq_iff)
    then show ?thesis
      by (simp add: Some None copyLoop_nil accountsOf_def)
  next
    case (Some pa)
    show ?thesis
      by (simp add: \<open>accountData dl = Some ca\<close> Some copyLoop_result[OF ks] accountsOf_def)
  qed
qed

lemma storageMerged_refl:
  assumes "innersOf m co = Map.empty \<or> po = None"
    and "po = None \<longrightarrow> innersOf m co = Map.empty"
  shows "storageMerged m m po co"
proof -
  from assms have e: "innersOf m co = Map.empty" by blast
  show ?thesis
    unfolding storageMerged_def e by (auto simp: mergedRef_def fun_eq_iff)
qed

lemma storage_part:
  assumes ord1: "\<forall>storages. co = Some storages \<longrightarrow>
          set (nestedOrder ord (nestedMap m storages)) = dom (nestedMap m storages)
          \<and> distinct (nestedOrder ord (nestedMap m storages))
          \<and> (\<forall>a inner. nestedMap m storages a = Some (Some inner) \<longrightarrow>
                set (flatOrder ord (flatMap m inner)) = dom (flatMap m inner))"
    and a1: "co = None \<or> po \<noteq> co"
    and a2: "\<forall>a a' x. innersOf m po a = Some (Some x) \<and> innersOf m po a' = Some (Some x) \<longrightarrow> a = a'"
    and a3: "\<forall>a a' y. innersOf m co a = Some (Some y) \<longrightarrow> innersOf m po a' \<noteq> Some (Some y)"
  shows "if po = None \<and> innersOf m co \<noteq> Map.empty
         then (case co of
                 None \<Rightarrow> Inr m
               | Some storages \<Rightarrow>
                   storageLoop ord storages po (nestedOrder ord (nestedMap m storages)) m)
              = Inl Panic
         else (\<exists>m2. (case co of
                 None \<Rightarrow> Inr m
               | Some storages \<Rightarrow>
                   storageLoop ord storages po (nestedOrder ord (nestedMap m storages)) m)
              = Inr m2 \<and> storageMerged m m2 po co)"
proof (cases co)
  case None
  then show ?thesis
    by (simp add: storageMerged_refl innersOf_def)
next
  case (Some c)
  with ord1 have ks: "set (nestedOrder ord (nestedMap m c)) = dom (nestedMap m c)"
    and di: "distinct (nestedOrder ord (nestedMap m c))"
    and en: "\<forall>a inner. nestedMap m c a = Some (Some inner) \<longrightarrow>
                set (flatOrder ord (flatMap m inner)) = dom (flatMap m inner)" by auto
  have ic: "innersOf m co = nestedMap m c" by (simp add: Some innersOf_def)
  show ?thesis
  proof (cases po)
    case None
    have "(\<exists>k \<in> set (nestedOrder ord (nestedMap m c)). nestedMap m c k \<noteq> None)
          \<longleftrightarrow> nestedMap m c \<noteq> Map.empty"
      unfolding ks by (auto simp: fun_eq_iff)
    moreover have ic': "innersOf m (Some c) = nestedMap m c" by (simp add: innersOf_def)
    moreover have "nestedMap m c = Map.empty \<Longrightarrow> storageMerged m m None (Some c)"
      by (rule storageMerged_refl) (simp_all add: ic')
    ultimately show ?thesis
      unfolding \<open>co = Some c\<close> None ic'
      by (simp add: storageLoop_nil)
  next
    case (Some d)
    have ip: "innersOf m po = nestedMap m d" by (simp add: Some innersOf_def)
    from a1 Some \<open>co = Some c\<close> have ne: "d \<noteq> c" by auto
    have "\<exists>m2. storageLoop ord c (Some d) (nestedOrder ord (nestedMap m c)) m = Inr m2
            \<and> loopInv m c d ({} \<union> set (nestedOrder ord (nestedMap m c))) m2"
      by (rule storageLoop_inv[OF ne a2[unfolded ip] a3[unfolded ip ic] en di])
         (simp_all add: loopInv_start)
    then obtain m2 where r: "storageLoop ord c (Some d) (nestedOrder ord (nestedMap m c)) m = Inr m2"
      and inv: "loopInv m c d ({} \<union> set (nestedOrder ord (nestedMap m c))) m2"
      by auto
    have dm: "a \<in> dom (nestedMap m c) \<or> nestedMap m c a = None" for a by auto
    have "storageMerged m m2 po co"
      unfolding storageMerged_def ip ic
    proof (intro conjI allI impI)
      fix x
      show "nestedMap m2 x =
              (if po = Some x
               then (\<lambda>a. mergedRef (nestedMap m x a) (nestedMap m c a))
               else nestedMap m x)"
      proof (cases "x = d")
        case True
        have "nestedMap m2 d a = mergedRef (nestedMap m d a) (nestedMap m c a)" for a
          using inv dm[of a] unfolding loopInv_def ks
          by (auto simp: mergedRef_def)
        with True Some show ?thesis by (auto simp: fun_eq_iff)
      next
        case False
        with inv Some show ?thesis unfolding loopInv_def by auto
      qed
    next
      fix a x y
      assume "nestedMap m d a = Some (Some x) \<and> nestedMap m c a = Some (Some y)"
      with inv show "flatMap m2 x = flatMap m x ++ flatMap m y"
        unfolding loopInv_def ks by (auto simp: domIff)
    next
      fix z
      assume "\<not> (\<exists>a y. nestedMap m d a = Some (Some z) \<and> nestedMap m c a = Some (Some y))"
      with inv show "flatMap m2 z = flatMap m z"
        unfolding loopInv_def ks by blast
    qed
    with r show ?thesis by (simp add: Some \<open>co = Some c\<close>)
  qed
qed

lemma afterAccounts_simps:
  "nestedMap (afterAccounts ms par dl) = nestedMap ms"
  "innersOf (afterAccounts ms par dl) f = innersOf ms f"
  "accountData par \<noteq> Some z \<Longrightarrow> flatMap (afterAccounts ms par dl) z = flatMap ms z"
  "accountData par = Some pa \<Longrightarrow>
     flatMap (afterAccounts ms par dl) pa = flatMap ms pa ++ accountsOf ms (accountData dl)"
  by (auto simp: afterAccounts_def innersOf_def split: option.splits)

lemma flattenInto_unfold:
  assumes dl: "deref h r = Some dl" and par: "deref h p = Some par"
    and en: "enumerated ord ms dl" and ns: "\<not> stale par"
  shows "flattenInto ord h ms r p =
     (if accountData par = None \<and> accountsOf ms (accountData dl) \<noteq> Map.empty then Inl Panic
      else
        (case (case storageData dl of
                 None \<Rightarrow> Inr (afterAccounts ms par dl)
               | Some storages \<Rightarrow>
                   storageLoop ord storages (storageData par)
                     (nestedOrder ord (nestedMap (afterAccounts ms par dl) storages))
                     (afterAccounts ms par dl)) of
           Inl err \<Rightarrow> Inl err
         | Inr ms2 \<Rightarrow>
             Inr (h[p := par\<lparr>stale := True\<rparr>]
                    @ [\<lparr>origin = origin par, parent = parent par,
                        memory = memory par + memory dl, root = root dl,
                        stale = False, accountList = accountList par,
                        accountData = accountData par,
                        storageList = storageList par,
                        storageData = storageData par,
                        diffed = diffed dl, cumulative = None\<rparr>],
                  ms2, length h)))"
  unfolding flattenInto_def afterAccounts_def
  by (simp add: dl par ns accounts_part[OF en])

lemma flattenInto_stale:
  assumes "deref h r = Some dl" and "deref h p = Some par" and "stale par"
  shows "flattenInto ord h ms r p = Inl Panic"
  using assms by (simp add: flattenInto_def)

lemma flattenInto_nilWrite:
  assumes dl: "deref h r = Some dl" and par: "deref h p = Some par"
    and en: "enumerated ord ms dl" and ns: "\<not> stale par" and nw: "nilWrite ms par dl"
  shows "flattenInto ord h ms r p = Inl Panic"
proof (cases "accountData par = None \<and> accountsOf ms (accountData dl) \<noteq> Map.empty")
  case True
  then show ?thesis by (simp add: flattenInto_unfold[OF dl par en ns])
next
  case False
  with nw have po: "storageData par = None" and ne: "innersOf ms (storageData dl) \<noteq> Map.empty"
    by (auto simp: nilWrite_def)
  from ne obtain c where c: "storageData dl = Some c" and nc: "nestedMap ms c \<noteq> Map.empty"
    by (auto simp: innersOf_def split: option.splits)
  from en c have ks: "set (nestedOrder ord (nestedMap ms c)) = dom (nestedMap ms c)"
    by (simp add: enumerated_def)
  have "\<exists>k \<in> set (nestedOrder ord (nestedMap ms c)). nestedMap ms c k \<noteq> None"
    unfolding ks using nc by (auto simp: fun_eq_iff)
  then show ?thesis
    using False
    by (simp add: flattenInto_unfold[OF dl par en ns] c po storageLoop_nil afterAccounts_simps)
qed

lemma copyLoop_some: "\<exists>ms'. copyLoop src (Some d) ks ms = Inr ms'"
  by (induction ks arbitrary: ms) (auto split: option.splits)

lemma storageLoop_some: "\<exists>ms'. storageLoop ord src (Some d) ks ms = Inr ms'"
proof (induction ks arbitrary: ms)
  case Nil
  show ?case by simp
next
  case (Cons k ks)
  show ?case
  proof (cases "nestedMap ms src k")
    case None
    with Cons show ?thesis by simp
  next
    case (Some storage')
    note st = this
    show ?thesis
    proof (cases "\<exists>x y. nestedMap ms d k = Some (Some x) \<and> storage' = Some y")
      case False
      then show ?thesis
        using Cons[of "ms\<lparr>nestedMap := (nestedMap ms)(d := (nestedMap ms d)(k \<mapsto> storage'))\<rparr>"]
        by (auto simp: st split: option.splits)
    next
      case True
      then obtain x y where x: "nestedMap ms d k = Some (Some x)" and y: "storage' = Some y"
        by blast
      from copyLoop_some[of y x "flatOrder ord (flatMap ms y)" ms]
      obtain ms' where c: "copyLoop y (Some x) (flatOrder ord (flatMap ms y)) ms = Inr ms'" ..
      show ?thesis
        using Cons[of "ms'\<lparr>nestedMap := (nestedMap ms')(d := (nestedMap ms' d)(k \<mapsto> Some x))\<rparr>"]
        by (simp add: st x y c)
    qed
  qed
qed

lemma flattenInto_returns:
  assumes dl: "deref h r = Some dl" and par: "deref h p = Some par"
    and en: "enumerated ord ms dl" and ns: "\<not> stale par" and nw: "\<not> nilWrite ms par dl"
  shows "\<exists>ms2. flattenInto ord h ms r p =
             Inr (h[p := par\<lparr>stale := True\<rparr>]
                    @ [\<lparr>origin = origin par, parent = parent par,
                        memory = memory par + memory dl, root = root dl,
                        stale = False, accountList = accountList par,
                        accountData = accountData par,
                        storageList = storageList par,
                        storageData = storageData par,
                        diffed = diffed dl, cumulative = None\<rparr>],
                  ms2, length h)"
proof -
  from nw have nil_a: "\<not> (accountData par = None \<and> accountsOf ms (accountData dl) \<noteq> Map.empty)"
    and nil_s: "\<not> (storageData par = None \<and> innersOf ms (storageData dl) \<noteq> Map.empty)"
    unfolding nilWrite_def by blast+
  have "\<exists>ms2. (case storageData dl of
                 None \<Rightarrow> Inr (afterAccounts ms par dl)
               | Some storages \<Rightarrow>
                   storageLoop ord storages (storageData par)
                     (nestedOrder ord (nestedMap (afterAccounts ms par dl) storages))
                     (afterAccounts ms par dl)) = Inr ms2"
  proof (cases "storageData dl")
    case None
    then show ?thesis by simp
  next
    case (Some c)
    show ?thesis
    proof (cases "storageData par")
      case None
      with nil_s Some have "nestedMap ms c = Map.empty" by (simp add: innersOf_def)
      then show ?thesis
        by (simp add: Some None storageLoop_nil afterAccounts_simps)
    next
      case (Some d)
      with storageLoop_some[of ord c d] show ?thesis
        by (simp add: \<open>storageData dl = Some c\<close>)
    qed
  qed
  then obtain ms2 where "(case storageData dl of
                 None \<Rightarrow> Inr (afterAccounts ms par dl)
               | Some storages \<Rightarrow>
                   storageLoop ord storages (storageData par)
                     (nestedOrder ord (nestedMap (afterAccounts ms par dl) storages))
                     (afterAccounts ms par dl)) = Inr ms2" ..
  then show ?thesis
    unfolding flattenInto_unfold[OF dl par en ns] using nil_a by simp
qed

lemma flattenInto_merged:
  assumes dl: "deref h r = Some dl" and par: "deref h p = Some par"
    and en: "enumerated ord ms dl" and ns: "\<not> stale par" and nw: "\<not> nilWrite ms par dl"
    and sep: "separate ms par dl"
  shows "\<exists>ms2. flattenInto ord h ms r p =
             Inr (h[p := par\<lparr>stale := True\<rparr>]
                    @ [\<lparr>origin = origin par, parent = parent par,
                        memory = memory par + memory dl, root = root dl,
                        stale = False, accountList = accountList par,
                        accountData = accountData par,
                        storageList = storageList par,
                        storageData = storageData par,
                        diffed = diffed dl, cumulative = None\<rparr>],
                  ms2, length h)
           \<and> mergedInto ms ms2 par dl"
proof -
  define m where "m = afterAccounts ms par dl"
  note aa = afterAccounts_simps[where ms = ms and par = par and dl = dl, folded m_def]
  from sep have a1: "storageData dl = None \<or> storageData par \<noteq> storageData dl"
    and a2: "\<forall>a a' x. innersOf ms (storageData par) a = Some (Some x)
                  \<and> innersOf ms (storageData par) a' = Some (Some x) \<longrightarrow> a = a'"
    and a3: "\<forall>a a' y. innersOf ms (storageData dl) a = Some (Some y) \<longrightarrow>
                  innersOf ms (storageData par) a' \<noteq> Some (Some y)"
    and a4: "\<forall>accounts a. accountData par = Some accounts \<longrightarrow>
                  innersOf ms (storageData par) a \<noteq> Some (Some accounts)
                  \<and> innersOf ms (storageData dl) a \<noteq> Some (Some accounts)"
    unfolding separate_def by blast+
  have fm_child: "flatMap m y = flatMap ms y" if "innersOf ms (storageData dl) a = Some (Some y)" for a y
  proof (rule aa(3))
    from a4 that show "accountData par \<noteq> Some y" by blast
  qed
  have fm_par: "flatMap m x = flatMap ms x" if "innersOf ms (storageData par) a = Some (Some x)" for a x
  proof (rule aa(3))
    from a4 that show "accountData par \<noteq> Some x" by blast
  qed
  have ord1: "\<forall>storages. storageData dl = Some storages \<longrightarrow>
          set (nestedOrder ord (nestedMap m storages)) = dom (nestedMap m storages)
          \<and> distinct (nestedOrder ord (nestedMap m storages))
          \<and> (\<forall>a inner. nestedMap m storages a = Some (Some inner) \<longrightarrow>
                set (flatOrder ord (flatMap m inner)) = dom (flatMap m inner))"
  proof (intro allI impI)
    fix c assume c: "storageData dl = Some c"
    have ic: "innersOf ms (storageData dl) = nestedMap ms c" by (simp add: c innersOf_def)
    from en c have e1: "set (nestedOrder ord (nestedMap ms c)) = dom (nestedMap ms c)"
      and e2: "distinct (nestedOrder ord (nestedMap ms c))"
      and e3: "\<And>a inner. nestedMap ms c a = Some (Some inner) \<Longrightarrow>
                set (flatOrder ord (flatMap ms inner)) = dom (flatMap ms inner)"
      unfolding enumerated_def by blast+
    show "set (nestedOrder ord (nestedMap m c)) = dom (nestedMap m c)
          \<and> distinct (nestedOrder ord (nestedMap m c))
          \<and> (\<forall>a inner. nestedMap m c a = Some (Some inner) \<longrightarrow>
                set (flatOrder ord (flatMap m inner)) = dom (flatMap m inner))"
    proof (intro conjI allI impI)
      show "set (nestedOrder ord (nestedMap m c)) = dom (nestedMap m c)"
        unfolding aa(1) by (rule e1)
      show "distinct (nestedOrder ord (nestedMap m c))"
        unfolding aa(1) by (rule e2)
    next
      fix a inner assume "nestedMap m c a = Some (Some inner)"
      then have i: "nestedMap ms c a = Some (Some inner)" unfolding aa(1) .
      then have "innersOf ms (storageData dl) a = Some (Some inner)" unfolding ic .
      from fm_child[OF this] e3[OF i]
      show "set (flatOrder ord (flatMap m inner)) = dom (flatMap m inner)" by simp
    qed
  qed
  from nw have nil_s: "\<not> (storageData par = None \<and> innersOf m (storageData dl) \<noteq> Map.empty)"
    and nil_a: "\<not> (accountData par = None \<and> accountsOf ms (accountData dl) \<noteq> Map.empty)"
    unfolding nilWrite_def aa(2) by blast+
  from storage_part[OF ord1 a1 a2[folded aa(2)[of "storageData par"]]
                       a3[folded aa(2)[of "storageData par"] aa(2)[of "storageData dl"]]] nil_s
  obtain ms2 where
    run: "(case storageData dl of
             None \<Rightarrow> Inr m
           | Some storages \<Rightarrow>
               storageLoop ord storages (storageData par)
                 (nestedOrder ord (nestedMap m storages)) m) = Inr ms2"
    and sm: "storageMerged m ms2 (storageData par) (storageData dl)"
    by (auto split: if_splits)
  from sm have s1: "\<And>x. nestedMap ms2 x =
              (if storageData par = Some x
               then (\<lambda>a. mergedRef (nestedMap m x a) (innersOf m (storageData dl) a))
               else nestedMap m x)"
    and s2: "\<And>a x y. innersOf m (storageData par) a = Some (Some x) \<Longrightarrow>
               innersOf m (storageData dl) a = Some (Some y) \<Longrightarrow>
                 flatMap ms2 x = flatMap m x ++ flatMap m y"
    and s3: "\<And>z. \<not> (\<exists>a y. innersOf m (storageData par) a = Some (Some z)
                        \<and> innersOf m (storageData dl) a = Some (Some y)) \<Longrightarrow>
             flatMap ms2 z = flatMap m z"
    unfolding storageMerged_def by blast+
  have "mergedInto ms ms2 par dl"
    unfolding mergedInto_def
  proof (intro conjI allI impI)
    fix pa assume pa: "accountData par = Some pa"
    have "\<not> (\<exists>a y. innersOf m (storageData par) a = Some (Some pa)
                        \<and> innersOf m (storageData dl) a = Some (Some y))"
      unfolding aa(2) using a4 pa by blast
    from s3[OF this] aa(4)[OF pa]
    show "flatMap ms2 pa = flatMap ms pa ++ accountsOf ms (accountData dl)" by simp
  next
    fix x
    show "nestedMap ms2 x =
              (if storageData par = Some x
               then (\<lambda>a. mergedRef (nestedMap ms x a) (innersOf ms (storageData dl) a))
               else nestedMap ms x)"
      using s1[of x] unfolding aa(1) aa(2) .
  next
    fix a x y
    assume h: "innersOf ms (storageData par) a = Some (Some x)
                 \<and> innersOf ms (storageData dl) a = Some (Some y)"
    then have "flatMap ms2 x = flatMap m x ++ flatMap m y"
      using s2[of a x y] unfolding aa(2) by blast
    with h fm_par[of a x] fm_child[of a y]
    show "flatMap ms2 x = flatMap ms x ++ flatMap ms y" by simp
  next
    fix z
    assume h: "accountData par \<noteq> Some z
             \<and> \<not> (\<exists>a y. innersOf ms (storageData par) a = Some (Some z)
                         \<and> innersOf ms (storageData dl) a = Some (Some y))"
    then have "flatMap ms2 z = flatMap m z"
      using s3[of z] unfolding aa(2) by blast
    with h aa(3)[of z] show "flatMap ms2 z = flatMap ms z" by simp
  qed
  moreover have "flattenInto ord h ms r p =
             Inr (h[p := par\<lparr>stale := True\<rparr>]
                    @ [\<lparr>origin = origin par, parent = parent par,
                        memory = memory par + memory dl, root = root dl,
                        stale = False, accountList = accountList par,
                        accountData = accountData par,
                        storageList = storageList par,
                        storageData = storageData par,
                        diffed = diffed dl, cumulative = None\<rparr>],
                  ms2, length h)"
    unfolding flattenInto_unfold[OF dl par en ns] m_def[symmetric]
    using nil_a run by simp
  ultimately show ?thesis by blast
qed

lemma merged_by_value:
  assumes mg: "mergedInto ms ms2 par dl" and sep: "separate ms par dl"
    and nw: "\<not> nilWrite ms par dl"
  shows "accountsOf ms2 (accountData par) =
           accountsOf ms (accountData par) ++ accountsOf ms (accountData dl)"
    and "storageOf ms2 (storageData par) =
           mergeStorage (storageOf ms (storageData par)) (storageOf ms (storageData dl))"
proof -
  from mg have m1: "\<And>pa. accountData par = Some pa \<Longrightarrow>
        flatMap ms2 pa = flatMap ms pa ++ accountsOf ms (accountData dl)"
    and m2: "\<And>x. nestedMap ms2 x =
              (if storageData par = Some x
               then (\<lambda>a. mergedRef (nestedMap ms x a) (innersOf ms (storageData dl) a))
               else nestedMap ms x)"
    and m3: "\<And>a x y. innersOf ms (storageData par) a = Some (Some x) \<Longrightarrow>
                 innersOf ms (storageData dl) a = Some (Some y) \<Longrightarrow>
                 flatMap ms2 x = flatMap ms x ++ flatMap ms y"
    and m4: "\<And>z. accountData par \<noteq> Some z \<Longrightarrow>
             \<not> (\<exists>a y. innersOf ms (storageData par) a = Some (Some z)
                         \<and> innersOf ms (storageData dl) a = Some (Some y)) \<Longrightarrow>
             flatMap ms2 z = flatMap ms z"
    unfolding mergedInto_def by blast+
  from sep have a2: "\<And>a a' x. innersOf ms (storageData par) a = Some (Some x) \<Longrightarrow>
                  innersOf ms (storageData par) a' = Some (Some x) \<Longrightarrow> a = a'"
    and a3: "\<And>a a' y. innersOf ms (storageData dl) a = Some (Some y) \<Longrightarrow>
                  innersOf ms (storageData par) a' \<noteq> Some (Some y)"
    and a4: "\<And>accounts a. accountData par = Some accounts \<Longrightarrow>
                  innersOf ms (storageData par) a \<noteq> Some (Some accounts)
                  \<and> innersOf ms (storageData dl) a \<noteq> Some (Some accounts)"
    unfolding separate_def by blast+
  show "accountsOf ms2 (accountData par) =
           accountsOf ms (accountData par) ++ accountsOf ms (accountData dl)"
  proof (cases "accountData par")
    case None
    with nw have "accountsOf ms (accountData dl) = Map.empty" by (simp add: nilWrite_def)
    with None show ?thesis by (simp add: accountsOf_def)
  next
    case (Some pa)
    with m1[OF Some] show ?thesis by (simp add: accountsOf_def)
  qed
  show "storageOf ms2 (storageData par) =
           mergeStorage (storageOf ms (storageData par)) (storageOf ms (storageData dl))"
  proof (cases "storageData par")
    case None
    with nw have "innersOf ms (storageData dl) = Map.empty" by (simp add: nilWrite_def)
    with None show ?thesis
      by (simp add: storageOf_def innersOf_def mergeStorage_def fun_eq_iff)
  next
    case (Some po)
    have ip: "innersOf ms (storageData par) = nestedMap ms po" by (simp add: Some innersOf_def)
    have i2: "innersOf ms2 (storageData par) a
                = mergedRef (nestedMap ms po a) (innersOf ms (storageData dl) a)" for a
      using m2[of po] by (simp add: Some innersOf_def)
    show ?thesis
    proof (rule ext)
      fix a
      show "storageOf ms2 (storageData par) a =
           mergeStorage (storageOf ms (storageData par)) (storageOf ms (storageData dl)) a"
      proof (cases "innersOf ms (storageData dl) a")
        case None
        note cn = this
        show ?thesis
        proof (cases "nestedMap ms po a")
          case None
          with cn show ?thesis
            by (simp add: storageOf_def i2 ip mergedRef_def mergeStorage_def)
        next
          case (Some pe)
          show ?thesis
          proof (cases pe)
            case None
            with Some cn show ?thesis
              by (simp add: storageOf_def i2 ip mergedRef_def mergeStorage_def)
          next
            case (Some x)
            with \<open>nestedMap ms po a = Some pe\<close> have px: "innersOf ms (storageData par) a = Some (Some x)"
              by (simp add: ip)
            have "flatMap ms2 x = flatMap ms x"
            proof (rule m4)
              from a4 px show "accountData par \<noteq> Some x" by blast
              show "\<not> (\<exists>a y. innersOf ms (storageData par) a = Some (Some x)
                         \<and> innersOf ms (storageData dl) a = Some (Some y))"
              proof
                assume "\<exists>a y. innersOf ms (storageData par) a = Some (Some x)
                         \<and> innersOf ms (storageData dl) a = Some (Some y)"
                then obtain a' y where p': "innersOf ms (storageData par) a' = Some (Some x)"
                  and c': "innersOf ms (storageData dl) a' = Some (Some y)" by blast
                from a2[OF p' px] have "a' = a" .
                with c' cn show False by simp
              qed
            qed
            with px cn show ?thesis
              by (simp add: storageOf_def i2 ip[symmetric] mergedRef_def mergeStorage_def)
          qed
        qed
      next
        case (Some ce)
        note cs = this
        show ?thesis
        proof (cases ce)
          case None
          with cs show ?thesis
            by (auto simp: storageOf_def i2 ip mergedRef_def mergeStorage_def split: option.splits)
        next
          case (Some y)
          with cs have cy: "innersOf ms (storageData dl) a = Some (Some y)" by simp
          show ?thesis
          proof (cases "\<exists>x. nestedMap ms po a = Some (Some x)")
            case True
            then obtain x where px: "nestedMap ms po a = Some (Some x)" by blast
            then have "flatMap ms2 x = flatMap ms x ++ flatMap ms y"
              using m3[of a x y] cy by (simp add: ip)
            moreover have "flatMap ms x ++ flatMap ms y =
                  (\<lambda>storageHash. case flatMap ms y storageHash of
                          Some data \<Rightarrow> Some data
                        | None \<Rightarrow> flatMap ms x storageHash)"
              by (auto simp: map_add_def fun_eq_iff split: option.splits)
            ultimately show ?thesis
              using px cy
              by (simp add: storageOf_def i2 ip mergedRef_def mergeStorage_def)
          next
            case False
            have "flatMap ms2 y = flatMap ms y"
            proof (rule m4)
              from a4 cy show "accountData par \<noteq> Some y" by blast
              show "\<not> (\<exists>a' y'. innersOf ms (storageData par) a' = Some (Some y)
                         \<and> innersOf ms (storageData dl) a' = Some (Some y'))"
                using a3[OF cy] by blast
            qed
            with False cy show ?thesis
              by (auto simp: storageOf_def i2 ip mergedRef_def mergeStorage_def split: option.splits)
          qed
        qed
      qed
    qed
  qed
qed


lemma flatten_disk_parent:
  "deref h r = Some dl \<Longrightarrow> parent dl = DiskLayer d \<Longrightarrow>
   flatten ord h ms r = Some (Inr (h, ms, r))"
  by (subst flatten.simps) simp

lemma flatten_diff_parent:
  "deref h r = Some dl \<Longrightarrow> parent dl = DiffLayer p \<Longrightarrow>
   flatten ord h ms r =
     (case flatten ord h ms p of
        None \<Rightarrow> None
      | Some (Inl err) \<Rightarrow> Some (Inl err)
      | Some (Inr (h1, ms1, p1)) \<Rightarrow> Some (flattenInto ord h1 ms1 r p1))"
  by (subst flatten.simps) (simp split: option.splits sum.splits)

lemma flattenInto_frame:
  assumes "flattenInto ord h ms r p = Inr (h', ms', r')"
  shows "length h' = Suc (length h)" and "r' = length h"
    and "\<forall>i < length h. i \<noteq> p \<longrightarrow> h' ! i = h ! i"
    and "p < length h" and "parent (h' ! p) = parent (h ! p)"
    and "parent (h' ! r') = parent (h ! p)"
  using assms
  by (auto simp: flattenInto_def deref_def nth_append split: option.splits if_splits sum.splits)

lemma flatten_total_frame:
  "chain h r n \<Longrightarrow>
   (flatten ord h ms r = Some (Inl Panic)) \<or>
   (\<exists>h' ms' r'. flatten ord h ms r = Some (Inr (h', ms', r')) \<and> length h \<le> length h'
      \<and> r' < length h' \<and> \<not> hasDiffParent (h' ! r')
      \<and> (\<forall>i < length h. hasDiffParent (h ! i) \<longrightarrow> h' ! i = h ! i))"
proof (induction n arbitrary: r)
  case 0
  then obtain dl d where dl: "deref h r = Some dl" "parent dl = DiskLayer d"
    by (auto split: option.splits snapshot.splits)
  then have "flatten ord h ms r = Some (Inr (h, ms, r))" by (rule flatten_disk_parent)
  moreover from dl have "r < length h" "\<not> hasDiffParent (h ! r)"
    by (auto simp: deref_def hasDiffParent_def split: if_splits)
  ultimately show ?case by simp
next
  case (Suc n)
  then obtain dl p where dl: "deref h r = Some dl" "parent dl = DiffLayer p" and ch: "chain h p n"
    by (auto split: option.splits snapshot.splits)
  note step = flatten_diff_parent[OF dl]
  from Suc.IH[OF ch] show ?case
  proof
    assume "flatten ord h ms p = Some (Inl Panic)"
    then show ?thesis by (simp add: step)
  next
    assume "\<exists>h' ms' r'. flatten ord h ms p = Some (Inr (h', ms', r')) \<and> length h \<le> length h'
      \<and> r' < length h' \<and> \<not> hasDiffParent (h' ! r')
      \<and> (\<forall>i < length h. hasDiffParent (h ! i) \<longrightarrow> h' ! i = h ! i)"
    then obtain h1 ms1 p1 where f: "flatten ord h ms p = Some (Inr (h1, ms1, p1))"
      and len: "length h \<le> length h1"
      and p1: "p1 < length h1" and nd: "\<not> hasDiffParent (h1 ! p1)"
      and fr: "\<forall>i < length h. hasDiffParent (h ! i) \<longrightarrow> h1 ! i = h ! i" by blast
    have s: "flatten ord h ms r = Some (flattenInto ord h1 ms1 r p1)" by (simp add: step f)
    show ?thesis
    proof (cases "flattenInto ord h1 ms1 r p1")
      case (Inl err)
      then have "err = Panic" by (rule flattenInto_error)
      with Inl s show ?thesis by simp
    next
      case (Inr res)
      obtain h2 ms2 r2 where res: "res = (h2, ms2, r2)" by (cases res)
      note fi = flattenInto_frame[OF Inr[unfolded res]]
      have "\<not> hasDiffParent (h2 ! r2)"
        using fi(6) nd by (simp add: hasDiffParent_def)
      moreover have "\<forall>i < length h. hasDiffParent (h ! i) \<longrightarrow> h2 ! i = h ! i"
      proof (intro allI impI)
        fix i assume i: "i < length h" and hd: "hasDiffParent (h ! i)"
        with fr have e: "h1 ! i = h ! i" by simp
        with hd nd have "i \<noteq> p1" by auto
        with fi(3) i len have "h2 ! i = h1 ! i" by simp
        with e show "h2 ! i = h ! i" by simp
      qed
      ultimately show ?thesis
        using s Inr res fi(1,2) len by auto
    qed
  qed
qed

lemma flatten_preserves_self:
  assumes "chain h r (Suc n)" and "deref h r = Some dl" and "parent dl = DiffLayer p"
    and "flatten ord h ms p = Some (Inr (h1, ms1, p1))"
  shows "deref h1 r = Some dl" and "p1 < length h1" and "p1 \<noteq> r"
proof -
  from assms(1,2,3) have ch: "chain h p n" by simp
  from assms(2) have r: "r < length h" "h ! r = dl"
    by (auto simp: deref_def split: if_splits)
  from flatten_total_frame[OF ch, of ord ms] assms(4)
  have len: "length h \<le> length h1" and p1: "p1 < length h1"
    and nd: "\<not> hasDiffParent (h1 ! p1)"
    and fr: "\<forall>i < length h. hasDiffParent (h ! i) \<longrightarrow> h1 ! i = h ! i" by auto
  have hd: "hasDiffParent (h ! r)" using r assms(3) by (simp add: hasDiffParent_def)
  with fr r have e: "h1 ! r = dl" by simp
  with r len show "deref h1 r = Some dl" by (simp add: deref_def)
  show "p1 < length h1" by fact
  from e hd r nd show "p1 \<noteq> r" by auto
qed

lemma mergeStorage_cases:
  "mergeStorage pm cm a =
     (case cm a of
        None \<Rightarrow> pm a
      | Some inner \<Rightarrow>
          if pm a = None \<or> pm a = Some None \<or> inner = None then Some inner
          else Some (Some (the (the (pm a)) ++ the inner)))"
  by (auto simp: mergeStorage_def map_add_def split: option.splits)

text \<open>
  Claim C8, as amended. On a layer with a finite parent chain \<^verbatim>\<open>flatten\<close> returns. If
  the parent is the disk layer it returns the layer and leaves the stores as they are.
  If the parent is a diff layer, the parent is flattened first; an error of that is
  passed on; otherwise the flattened parent \<open>par\<close> is looked at, in the stores \<open>h1\<close>
  and \<open>ms1\<close> that flattening the parent has left. If \<open>par\<close> is stale the call
  panics. If it is not, and the order of \<^verbatim>\<open>range\<close> lists the keys of the layer's maps:
  the call panics when an entry has to be written into a nil map of \<open>par\<close>;
  otherwise \<open>par\<close> is marked stale and a new layer is returned that has the parent
  and origin of \<open>par\<close>, the root and \<^verbatim>\<open>diffed\<close> filter of the layer, the sum of the
  memories, and the very map objects of \<open>par\<close>, which have been written in place.
  When the map objects are separate, what has been written is this: the account map of
  \<open>par\<close> holds its entries overwritten by the layer's; the outer map of \<open>par\<close>
  holds, for each account of the layer, the layer's inner map object when \<open>par\<close> had
  none or a nil one or when the layer's is nil, and else its own inner map object, into
  which the layer's slots have been written; every other map object is as before.
  Whoever else holds a merged inner map object sees the merged slots. By value, the
  accounts of \<open>par\<close> are \<open>parent ++ layer\<close> and its storage is the merge of the two
  storages.
\<close>

theorem flatten_merges_into_parent:
  assumes "chain h r n" and "deref h r = Some dl"
  shows "(\<exists>res. flatten ord h ms r = Some res)
    \<and> (\<forall>d. parent dl = DiskLayer d \<longrightarrow> flatten ord h ms r = Some (Inr (h, ms, r)))
    \<and> (\<forall>p. parent dl = DiffLayer p \<longrightarrow>
          (\<exists>res. flatten ord h ms p = Some res)
          \<and> (\<forall>err. flatten ord h ms p = Some (Inl err) \<longrightarrow> flatten ord h ms r = Some (Inl err))
          \<and> (\<forall>h1 ms1 p1. flatten ord h ms p = Some (Inr (h1, ms1, p1)) \<longrightarrow>
                (\<exists>par. deref h1 p1 = Some par
                   \<and> (stale par \<longrightarrow> flatten ord h ms r = Some (Inl Panic))
                   \<and> (\<not> stale par \<and> enumerated ord ms1 dl \<and> nilWrite ms1 par dl \<longrightarrow>
                        flatten ord h ms r = Some (Inl Panic))
                   \<and> (\<not> stale par \<and> enumerated ord ms1 dl \<and> \<not> nilWrite ms1 par dl \<longrightarrow>
                        (\<exists>ms2.
                           flatten ord h ms r =
                             Some (Inr (h1[p1 := par\<lparr>stale := True\<rparr>]
                                        @ [\<lparr>origin = origin par, parent = parent par,
                                            memory = memory par + memory dl, root = root dl,
                                            stale = False, accountList = accountList par,
                                            accountData = accountData par,
                                            storageList = storageList par,
                                            storageData = storageData par,
                                            diffed = diffed dl, cumulative = None\<rparr>],
                                        ms2, length h1))
                           \<and> (separate ms1 par dl \<longrightarrow>
                               (\<forall>accounts. accountData par = Some accounts \<longrightarrow>
                                 flatMap ms2 accounts =
                                   flatMap ms1 accounts ++ accountsOf ms1 (accountData dl))
                           \<and> (\<forall>x. nestedMap ms2 x =
                                 (if storageData par = Some x
                                  then (\<lambda>a. mergedRef (nestedMap ms1 x a)
                                                (innersOf ms1 (storageData dl) a))
                                  else nestedMap ms1 x))
                           \<and> (\<forall>a x y. innersOf ms1 (storageData par) a = Some (Some x)
                                 \<and> innersOf ms1 (storageData dl) a = Some (Some y) \<longrightarrow>
                                 flatMap ms2 x = flatMap ms1 x ++ flatMap ms1 y)
                           \<and> (\<forall>z. accountData par \<noteq> Some z
                                 \<and> \<not> (\<exists>a y. innersOf ms1 (storageData par) a = Some (Some z)
                                         \<and> innersOf ms1 (storageData dl) a = Some (Some y)) \<longrightarrow>
                                 flatMap ms2 z = flatMap ms1 z)
                           \<and> accountsOf ms2 (accountData par) =
                               accountsOf ms1 (accountData par) ++ accountsOf ms1 (accountData dl)
                           \<and> storageOf ms2 (storageData par) =
                               mergeStorage (storageOf ms1 (storageData par))
                                 (storageOf ms1 (storageData dl))))))))
    \<and> (\<forall>pm cm a. mergeStorage pm cm a =
          (case cm a of
             None \<Rightarrow> pm a
           | Some inner \<Rightarrow>
               if pm a = None \<or> pm a = Some None \<or> inner = None then Some inner
               else Some (Some (the (the (pm a)) ++ the inner))))"
proof (intro conjI allI impI)
  show "\<exists>res. flatten ord h ms r = Some res"
    using flatten_total_frame[OF assms(1), of ord ms] by auto
next
  fix d assume "parent dl = DiskLayer d"
  with assms(2) show "flatten ord h ms r = Some (Inr (h, ms, r))" by (rule flatten_disk_parent)
next
  fix p assume p: "parent dl = DiffLayer p"
  with assms obtain m where n: "n = Suc m" and ch: "chain h p m"
    by (cases n) auto
  show "\<exists>res. flatten ord h ms p = Some res"
    using flatten_total_frame[OF ch, of ord ms] by auto
next
  fix p err assume p: "parent dl = DiffLayer p" and "flatten ord h ms p = Some (Inl err)"
  then show "flatten ord h ms r = Some (Inl err)"
    by (simp add: flatten_diff_parent[OF assms(2) p])
next
  fix p h1 ms1 p1
  assume p: "parent dl = DiffLayer p" and f: "flatten ord h ms p = Some (Inr (h1, ms1, p1))"
  with assms obtain m where n: "n = Suc m"
    by (cases n) auto
  note self = flatten_preserves_self[OF assms(1)[unfolded n] assms(2) p f]
  from self(2) obtain par where par: "deref h1 p1 = Some par"
    by (auto simp: deref_def)
  have s: "flatten ord h ms r = Some (flattenInto ord h1 ms1 r p1)"
    by (simp add: flatten_diff_parent[OF assms(2) p] f)
  have c1: "stale par \<longrightarrow> flatten ord h ms r = Some (Inl Panic)"
    using flattenInto_stale[OF self(1) par] s by simp
  have c2: "\<not> stale par \<and> enumerated ord ms1 dl \<and> nilWrite ms1 par dl \<longrightarrow>
                        flatten ord h ms r = Some (Inl Panic)"
    using flattenInto_nilWrite[OF self(1) par] s by simp
  have c3: "\<not> stale par \<and> enumerated ord ms1 dl \<and> \<not> nilWrite ms1 par dl \<longrightarrow>
                        (\<exists>ms2.
                           flatten ord h ms r =
                             Some (Inr (h1[p1 := par\<lparr>stale := True\<rparr>]
                                        @ [\<lparr>origin = origin par, parent = parent par,
                                            memory = memory par + memory dl, root = root dl,
                                            stale = False, accountList = accountList par,
                                            accountData = accountData par,
                                            storageList = storageList par,
                                            storageData = storageData par,
                                            diffed = diffed dl, cumulative = None\<rparr>],
                                        ms2, length h1))
                           \<and> (separate ms1 par dl \<longrightarrow>
                               (\<forall>accounts. accountData par = Some accounts \<longrightarrow>
                                 flatMap ms2 accounts =
                                   flatMap ms1 accounts ++ accountsOf ms1 (accountData dl))
                           \<and> (\<forall>x. nestedMap ms2 x =
                                 (if storageData par = Some x
                                  then (\<lambda>a. mergedRef (nestedMap ms1 x a)
                                                (innersOf ms1 (storageData dl) a))
                                  else nestedMap ms1 x))
                           \<and> (\<forall>a x y. innersOf ms1 (storageData par) a = Some (Some x)
                                 \<and> innersOf ms1 (storageData dl) a = Some (Some y) \<longrightarrow>
                                 flatMap ms2 x = flatMap ms1 x ++ flatMap ms1 y)
                           \<and> (\<forall>z. accountData par \<noteq> Some z
                                 \<and> \<not> (\<exists>a y. innersOf ms1 (storageData par) a = Some (Some z)
                                         \<and> innersOf ms1 (storageData dl) a = Some (Some y)) \<longrightarrow>
                                 flatMap ms2 z = flatMap ms1 z)
                           \<and> accountsOf ms2 (accountData par) =
                               accountsOf ms1 (accountData par) ++ accountsOf ms1 (accountData dl)
                           \<and> storageOf ms2 (storageData par) =
                               mergeStorage (storageOf ms1 (storageData par))
                                 (storageOf ms1 (storageData dl))))"
  proof
    assume a: "\<not> stale par \<and> enumerated ord ms1 dl \<and> \<not> nilWrite ms1 par dl"
    then have ns: "\<not> stale par" and en: "enumerated ord ms1 dl"
      and nw: "\<not> nilWrite ms1 par dl" by blast+
    have "\<exists>ms2. flattenInto ord h1 ms1 r p1 =
             Inr (h1[p1 := par\<lparr>stale := True\<rparr>]
                    @ [\<lparr>origin = origin par, parent = parent par,
                        memory = memory par + memory dl, root = root dl,
                        stale = False, accountList = accountList par,
                        accountData = accountData par,
                        storageList = storageList par,
                        storageData = storageData par,
                        diffed = diffed dl, cumulative = None\<rparr>],
                  ms2, length h1)
           \<and> (separate ms1 par dl \<longrightarrow> mergedInto ms1 ms2 par dl)"
    proof (cases "separate ms1 par dl")
      case True
      from flattenInto_merged[OF self(1) par en ns nw True] show ?thesis by blast
    next
      case False
      with flattenInto_returns[OF self(1) par en ns nw] show ?thesis by blast
    qed
    then obtain ms2 where fi: "flattenInto ord h1 ms1 r p1 =
             Inr (h1[p1 := par\<lparr>stale := True\<rparr>]
                    @ [\<lparr>origin = origin par, parent = parent par,
                        memory = memory par + memory dl, root = root dl,
                        stale = False, accountList = accountList par,
                        accountData = accountData par,
                        storageList = storageList par,
                        storageData = storageData par,
                        diffed = diffed dl, cumulative = None\<rparr>],
                  ms2, length h1)"
      and mg: "separate ms1 par dl \<longrightarrow> mergedInto ms1 ms2 par dl" by blast
    have bv: "separate ms1 par dl \<longrightarrow>
              accountsOf ms2 (accountData par) =
                accountsOf ms1 (accountData par) ++ accountsOf ms1 (accountData dl)
              \<and> storageOf ms2 (storageData par) =
                  mergeStorage (storageOf ms1 (storageData par)) (storageOf ms1 (storageData dl))"
      using merged_by_value[OF _ _ nw, of ms2] mg by blast
    show "\<exists>ms2.
                           flatten ord h ms r =
                             Some (Inr (h1[p1 := par\<lparr>stale := True\<rparr>]
                                        @ [\<lparr>origin = origin par, parent = parent par,
                                            memory = memory par + memory dl, root = root dl,
                                            stale = False, accountList = accountList par,
                                            accountData = accountData par,
                                            storageList = storageList par,
                                            storageData = storageData par,
                                            diffed = diffed dl, cumulative = None\<rparr>],
                                        ms2, length h1))
                           \<and> (separate ms1 par dl \<longrightarrow>
                               (\<forall>accounts. accountData par = Some accounts \<longrightarrow>
                                 flatMap ms2 accounts =
                                   flatMap ms1 accounts ++ accountsOf ms1 (accountData dl))
                           \<and> (\<forall>x. nestedMap ms2 x =
                                 (if storageData par = Some x
                                  then (\<lambda>a. mergedRef (nestedMap ms1 x a)
                                                (innersOf ms1 (storageData dl) a))
                                  else nestedMap ms1 x))
                           \<and> (\<forall>a x y. innersOf ms1 (storageData par) a = Some (Some x)
                                 \<and> innersOf ms1 (storageData dl) a = Some (Some y) \<longrightarrow>
                                 flatMap ms2 x = flatMap ms1 x ++ flatMap ms1 y)
                           \<and> (\<forall>z. accountData par \<noteq> Some z
                                 \<and> \<not> (\<exists>a y. innersOf ms1 (storageData par) a = Some (Some z)
                                         \<and> innersOf ms1 (storageData dl) a = Some (Some y)) \<longrightarrow>
                                 flatMap ms2 z = flatMap ms1 z)
                           \<and> accountsOf ms2 (accountData par) =
                               accountsOf ms1 (accountData par) ++ accountsOf ms1 (accountData dl)
                           \<and> storageOf ms2 (storageData par) =
                               mergeStorage (storageOf ms1 (storageData par))
                                 (storageOf ms1 (storageData dl)))"
      apply (rule exI[of _ ms2])
      using mg[unfolded mergedInto_def] bv s fi
      apply (intro conjI impI)
      apply simp
      apply blast
      apply blast
      apply blast
      apply blast
      apply blast
      apply blast
      done
  qed
  from par c1 c2 c3
  show "\<exists>par. deref h1 p1 = Some par
                   \<and> (stale par \<longrightarrow> flatten ord h ms r = Some (Inl Panic))
                   \<and> (\<not> stale par \<and> enumerated ord ms1 dl \<and> nilWrite ms1 par dl \<longrightarrow>
                        flatten ord h ms r = Some (Inl Panic))
                   \<and> (\<not> stale par \<and> enumerated ord ms1 dl \<and> \<not> nilWrite ms1 par dl \<longrightarrow>
                        (\<exists>ms2.
                           flatten ord h ms r =
                             Some (Inr (h1[p1 := par\<lparr>stale := True\<rparr>]
                                        @ [\<lparr>origin = origin par, parent = parent par,
                                            memory = memory par + memory dl, root = root dl,
                                            stale = False, accountList = accountList par,
                                            accountData = accountData par,
                                            storageList = storageList par,
                                            storageData = storageData par,
                                            diffed = diffed dl, cumulative = None\<rparr>],
                                        ms2, length h1))
                           \<and> (separate ms1 par dl \<longrightarrow>
                               (\<forall>accounts. accountData par = Some accounts \<longrightarrow>
                                 flatMap ms2 accounts =
                                   flatMap ms1 accounts ++ accountsOf ms1 (accountData dl))
                           \<and> (\<forall>x. nestedMap ms2 x =
                                 (if storageData par = Some x
                                  then (\<lambda>a. mergedRef (nestedMap ms1 x a)
                                                (innersOf ms1 (storageData dl) a))
                                  else nestedMap ms1 x))
                           \<and> (\<forall>a x y. innersOf ms1 (storageData par) a = Some (Some x)
                                 \<and> innersOf ms1 (storageData dl) a = Some (Some y) \<longrightarrow>
                                 flatMap ms2 x = flatMap ms1 x ++ flatMap ms1 y)
                           \<and> (\<forall>z. accountData par \<noteq> Some z
                                 \<and> \<not> (\<exists>a y. innersOf ms1 (storageData par) a = Some (Some z)
                                         \<and> innersOf ms1 (storageData dl) a = Some (Some y)) \<longrightarrow>
                                 flatMap ms2 z = flatMap ms1 z)
                           \<and> accountsOf ms2 (accountData par) =
                               accountsOf ms1 (accountData par) ++ accountsOf ms1 (accountData dl)
                           \<and> storageOf ms2 (storageData par) =
                               mergeStorage (storageOf ms1 (storageData par))
                                 (storageOf ms1 (storageData dl)))))"
    by blast
next
  fix pm cm a
  show "mergeStorage pm cm a =
          (case cm a of
             None \<Rightarrow> pm a
           | Some inner \<Rightarrow>
               if pm a = None \<or> pm a = Some None \<or> inner = None then Some inner
               else Some (Some (the (the (pm a)) ++ the inner)))"
    by (rule mergeStorage_cases)
qed

lemma demo_flatten_base:
  "flatten demoOrder demoHeap demoMaps 0 = Some (Inr (demoHeap, demoMaps, 0))"
  by (rule flatten_disk_parent[where dl = demoBase and d = demoDisk])
     (simp_all add: demoHeap_def deref_def demoBase_def demoLayer_def)

lemma demo_flatten_middle:
  "flatten demoOrder demoHeap demoMaps 1 =
     Some (Inr ([demoBase\<lparr>stale := True\<rparr>, demoMiddle, demoTop, demoFlat], demoMaps1, 3))"
proof -
  have d1: "deref demoHeap 1 = Some demoMiddle" and p1: "parent demoMiddle = DiffLayer 0"
    by (simp_all add: demoHeap_def deref_def demoMiddle_def demoLayer_def)
  have "flattenInto demoOrder demoHeap demoMaps 1 0 =
          Inr ([demoBase\<lparr>stale := True\<rparr>, demoMiddle, demoTop, demoFlat], demoMaps1, 3)"
    apply (simp add: flattenInto_def demoHeap_def deref_def)
    apply (simp add: demoBase_def demoMiddle_def demoTop_def demoLayer_def demoFlat_def
        demoOrder_def demoKeys_def demoMaps_def demoMaps1_def fun_eq_iff)
    done
  then show ?thesis
    unfolding flatten_diff_parent[OF d1 p1] demo_flatten_base by simp
qed


lemma demo_enumerated: "enumerated demoOrder demoMaps1 demoTop"
  by (auto simp: enumerated_def demoTop_def demoLayer_def demoOrder_def demoKeys_def
        demoMaps1_def demoMaps_def dom_def split: if_splits)

lemma demo_no_nilWrite: "\<not> nilWrite demoMaps1 demoFlat demoTop"
  by (simp add: nilWrite_def demoFlat_def)

lemma demo_separate: "separate demoMaps1 demoFlat demoTop"
  by (auto simp: separate_def demoTop_def demoLayer_def demoFlat_def innersOf_def
        demoMaps1_def demoMaps_def split: if_splits)

theorem flatten_merges_into_parent_witness:
  "(case flatten demoOrder demoHeap demoMaps 2 of
      Some (Inr (h2, ms2, r2)) \<Rightarrow>
        r2 = 4 \<and> length h2 = 5
        \<and> stale (h2 ! 0) \<and> \<not> stale (h2 ! 1) \<and> stale (h2 ! 3) \<and> \<not> stale (h2 ! 4)
        \<and> parent (h2 ! 4) = DiskLayer demoDisk \<and> origin (h2 ! 4) = Some demoDisk
        \<and> root (h2 ! 4) = [12] \<and> diffed (h2 ! 4) = Some {3} \<and> memory (h2 ! 4) = 17
        \<and> accountData (h2 ! 4) = Some 0 \<and> storageData (h2 ! 4) = Some 0
        \<and> flatMap ms2 0 = [[1] \<mapsto> [11], [2] \<mapsto> [], [3] \<mapsto> [30]]
        \<and> nestedMap ms2 0 = [[1] \<mapsto> Some 1, [4] \<mapsto> Some 4, [2] \<mapsto> None]
        \<and> flatMap ms2 1 = [[7] \<mapsto> [70], [8] \<mapsto> [81]]
        \<and> flatMap ms2 4 = [[5] \<mapsto> [51], [6] \<mapsto> [60]]
        \<and> storage demoHeap demoMaps 1 [4] [5] = Some (Inr [50])
        \<and> storage h2 ms2 1 [4] [5] = Some (Inr [51])
    | _ \<Rightarrow> False)"
proof -
  have c2: "chain demoHeap 2 2" and d2: "deref demoHeap 2 = Some demoTop"
    and p2: "parent demoTop = DiffLayer 1"
    by (simp_all add: demoHeap_def demoBase_def demoMiddle_def demoTop_def deref_def
          demoLayer_def numeral_2_eq_2)
  note T = flatten_merges_into_parent[OF c2 d2, where ord = demoOrder and ms = demoMaps,
      THEN conjunct2, THEN conjunct2, THEN conjunct1, rule_format, OF p2,
      THEN conjunct2, THEN conjunct2, rule_format, OF demo_flatten_middle]
  then obtain par where par: "deref [demoBase\<lparr>stale := True\<rparr>, demoMiddle, demoTop, demoFlat] 3 = Some par"
    and mg: "\<not> stale par \<and> enumerated demoOrder demoMaps1 demoTop \<and> \<not> nilWrite demoMaps1 par demoTop
               \<and> separate demoMaps1 par demoTop \<longrightarrow>
             (\<exists>ms2.
                flatten demoOrder demoHeap demoMaps 2 =
                  Some (Inr ([demoBase\<lparr>stale := True\<rparr>, demoMiddle, demoTop, demoFlat]
                               [3 := par\<lparr>stale := True\<rparr>]
                             @ [\<lparr>origin = origin par, parent = parent par,
                                 memory = memory par + memory demoTop, root = root demoTop,
                                 stale = False, accountList = accountList par,
                                 accountData = accountData par,
                                 storageList = storageList par,
                                 storageData = storageData par,
                                 diffed = diffed demoTop, cumulative = None\<rparr>],
                             ms2, length [demoBase\<lparr>stale := True\<rparr>, demoMiddle, demoTop, demoFlat]))
                \<and> (\<forall>accounts. accountData par = Some accounts \<longrightarrow>
                      flatMap ms2 accounts =
                        flatMap demoMaps1 accounts ++ accountsOf demoMaps1 (accountData demoTop))
                \<and> (\<forall>x. nestedMap ms2 x =
                      (if storageData par = Some x
                       then (\<lambda>a. mergedRef (nestedMap demoMaps1 x a)
                                     (innersOf demoMaps1 (storageData demoTop) a))
                       else nestedMap demoMaps1 x))
                \<and> (\<forall>a x y. innersOf demoMaps1 (storageData par) a = Some (Some x)
                      \<and> innersOf demoMaps1 (storageData demoTop) a = Some (Some y) \<longrightarrow>
                      flatMap ms2 x = flatMap demoMaps1 x ++ flatMap demoMaps1 y)
                \<and> (\<forall>z. accountData par \<noteq> Some z
                      \<and> \<not> (\<exists>a y. innersOf demoMaps1 (storageData par) a = Some (Some z)
                              \<and> innersOf demoMaps1 (storageData demoTop) a = Some (Some y)) \<longrightarrow>
                      flatMap ms2 z = flatMap demoMaps1 z)
                \<and> accountsOf ms2 (accountData par) =
                    accountsOf demoMaps1 (accountData par) ++ accountsOf demoMaps1 (accountData demoTop)
                \<and> storageOf ms2 (storageData par) =
                    mergeStorage (storageOf demoMaps1 (storageData par))
                      (storageOf demoMaps1 (storageData demoTop)))"
    by blast
  from par have pf: "par = demoFlat" by (simp add: deref_def)
  have ns: "\<not> stale demoFlat" by (simp add: demoFlat_def)
  from mg[unfolded pf] ns demo_enumerated demo_no_nilWrite demo_separate
  obtain ms2 where
    fl: "flatten demoOrder demoHeap demoMaps 2 =
                  Some (Inr ([demoBase\<lparr>stale := True\<rparr>, demoMiddle, demoTop, demoFlat]
                               [3 := demoFlat\<lparr>stale := True\<rparr>]
                             @ [\<lparr>origin = origin demoFlat, parent = parent demoFlat,
                                 memory = memory demoFlat + memory demoTop, root = root demoTop,
                                 stale = False, accountList = accountList demoFlat,
                                 accountData = accountData demoFlat,
                                 storageList = storageList demoFlat,
                                 storageData = storageData demoFlat,
                                 diffed = diffed demoTop, cumulative = None\<rparr>],
                             ms2, length [demoBase\<lparr>stale := True\<rparr>, demoMiddle, demoTop, demoFlat]))"
    and m1: "\<forall>accounts. accountData demoFlat = Some accounts \<longrightarrow>
                      flatMap ms2 accounts =
                        flatMap demoMaps1 accounts ++ accountsOf demoMaps1 (accountData demoTop)"
    and m2: "\<forall>x. nestedMap ms2 x =
                      (if storageData demoFlat = Some x
                       then (\<lambda>a. mergedRef (nestedMap demoMaps1 x a)
                                     (innersOf demoMaps1 (storageData demoTop) a))
                       else nestedMap demoMaps1 x)"
    and m3: "\<forall>a x y. innersOf demoMaps1 (storageData demoFlat) a = Some (Some x)
                      \<and> innersOf demoMaps1 (storageData demoTop) a = Some (Some y) \<longrightarrow>
                      flatMap ms2 x = flatMap demoMaps1 x ++ flatMap demoMaps1 y"
    and m4: "\<forall>z. accountData demoFlat \<noteq> Some z
                      \<and> \<not> (\<exists>a y. innersOf demoMaps1 (storageData demoFlat) a = Some (Some z)
                              \<and> innersOf demoMaps1 (storageData demoTop) a = Some (Some y)) \<longrightarrow>
                      flatMap ms2 z = flatMap demoMaps1 z"
    by blast
  have f0: "flatMap ms2 0 = [[1] \<mapsto> [11], [2] \<mapsto> [], [3] \<mapsto> [30]]"
    using m1[rule_format, of 0]
    by (auto simp: demoFlat_def demoTop_def demoLayer_def accountsOf_def demoMaps1_def demoMaps_def
          fun_eq_iff map_add_def)
  have n0: "nestedMap ms2 0 = [[1] \<mapsto> Some 1, [4] \<mapsto> Some 4, [2] \<mapsto> None]"
    using m2[rule_format, of 0]
    by (auto simp: demoFlat_def demoTop_def demoLayer_def innersOf_def demoMaps1_def demoMaps_def
          fun_eq_iff mergedRef_def)
  have n1: "nestedMap ms2 1 = [[1] \<mapsto> Some 3, [4] \<mapsto> Some 4, [2] \<mapsto> None]"
    using m2[rule_format, of 1]
    by (simp add: demoFlat_def demoMaps1_def demoMaps_def)
  have f4: "flatMap ms2 4 = [[5] \<mapsto> [51], [6] \<mapsto> [60]]"
    using m3[rule_format, of "[4]" 4 6]
    by (auto simp: demoFlat_def demoTop_def demoLayer_def innersOf_def demoMaps1_def demoMaps_def
          fun_eq_iff map_add_def)
  have f1: "flatMap ms2 1 = [[7] \<mapsto> [70], [8] \<mapsto> [81]]"
    using m4[rule_format, of 1]
    by (auto simp: demoFlat_def demoTop_def demoLayer_def innersOf_def demoMaps1_def demoMaps_def
          split: if_splits)
  have s0: "storage demoHeap demoMaps 1 [4] [5] = Some (Inr [50])"
    by (subst storage.simps)
       (simp add: demoHeap_def deref_def demoMiddle_def demoLayer_def demoMaps_def)
  have s2: "storage ([demoBase\<lparr>stale := True\<rparr>, demoMiddle, demoTop, demoFlat]
                               [3 := demoFlat\<lparr>stale := True\<rparr>]
                             @ [\<lparr>origin = origin demoFlat, parent = parent demoFlat,
                                 memory = memory demoFlat + memory demoTop, root = root demoTop,
                                 stale = False, accountList = accountList demoFlat,
                                 accountData = accountData demoFlat,
                                 storageList = storageList demoFlat,
                                 storageData = storageData demoFlat,
                                 diffed = diffed demoTop, cumulative = None\<rparr>]) ms2 1 [4] [5]
            = Some (Inr [51])"
    by (subst storage.simps)
       (simp add: deref_def demoMiddle_def demoLayer_def n1[unfolded One_nat_def] f4)
  show ?thesis
    unfolding fl using f0 n0 f1 f4 s0 s2
    by (simp add: demoFlat_def demoTop_def demoMiddle_def demoLayer_def demoBase_def nth_append)
qed

text \<open>
  The claim C8 as stated promises the merge for every parent that is not stale. On a
  parent whose account map is nil, flattening a layer that has an account panics
  instead: the assignment \<^verbatim>\<open>parent.accountData[hash] = data\<close> writes into a nil map.
\<close>

theorem flatten_nil_parent_map_counterexample:
  "chain [nilBase, nilTop] 1 1
   \<and> parent nilTop = DiffLayer 0 \<and> deref [nilBase, nilTop] 0 = Some nilBase
   \<and> \<not> stale nilBase \<and> accountData nilBase = None
   \<and> accountsOf demoMaps (accountData nilTop) = [[1] \<mapsto> [11]]
   \<and> flatten demoOrder [nilBase, nilTop] demoMaps 1 = Some (Inl Panic)"
proof (intro conjI)
  show "chain [nilBase, nilTop] 1 1"
    by (simp add: deref_def nilBase_def nilTop_def demoLayer_def)
  show p: "parent nilTop = DiffLayer 0"
    by (simp add: nilTop_def demoLayer_def)
  show d0: "deref [nilBase, nilTop] 0 = Some nilBase"
    by (simp add: deref_def)
  show "\<not> stale nilBase"
    by (simp add: nilBase_def demoLayer_def)
  show "accountData nilBase = None"
    by (simp add: nilBase_def demoLayer_def)
  show "accountsOf demoMaps (accountData nilTop) = [[1] \<mapsto> [11]]"
    by (simp add: accountsOf_def nilTop_def demoMaps_def)
  have d1: "deref [nilBase, nilTop] 1 = Some nilTop"
    by (simp add: deref_def)
  have b: "flatten demoOrder [nilBase, nilTop] demoMaps 0 = Some (Inr ([nilBase, nilTop], demoMaps, 0))"
    by (rule flatten_disk_parent[OF d0]) (simp add: nilBase_def demoLayer_def)
  have f: "flattenInto demoOrder [nilBase, nilTop] demoMaps 1 0 = Inl Panic"
    by (simp add: flattenInto_def deref_def nilBase_def nilTop_def demoLayer_def demoOrder_def
          demoKeys_def demoMaps_def)
  show "flatten demoOrder [nilBase, nilTop] demoMaps 1 = Some (Inl Panic)"
    unfolding flatten_diff_parent[OF d1 p] b using f by simp
qed

text \<open>
  The separation of the map objects is needed for the merge by value, and without it the
  result depends on the order of \<^verbatim>\<open>range\<close>. On the two layers that share an inner map
  object, the slot \<open>[5]\<close> of the account \<open>[2]\<close>, which neither layer has for that
  account, is found in the flattened layer when the accounts are ranged over in
  ascending order, and is not found (the read goes on to the disk layer) when they are
  ranged over in descending order; the merge by value does not have it.
\<close>

lemma flatten_shared_inner_map:
  "\<not> separate sharedMaps sharedBase sharedTop
   \<and> (case flatten demoOrder [sharedBase, sharedTop] sharedMaps 1 of
        Some (Inr (h2, ms2, r2)) \<Rightarrow>
          storage h2 ms2 r2 [2] [5] = Some (Inr [50])
      | _ \<Rightarrow> False)
   \<and> (case flatten demoOrderDesc [sharedBase, sharedTop] sharedMaps 1 of
        Some (Inr (h2, ms2, r2)) \<Rightarrow>
          storage h2 ms2 r2 [2] [5] = Some (Inr [2])
      | _ \<Rightarrow> False)
   \<and> (case mergeStorage (storageOf sharedMaps (storageData sharedBase))
              (storageOf sharedMaps (storageData sharedTop)) [2] of
        Some (Some merged) \<Rightarrow> merged [5] = None \<and> merged [7] = Some [70] \<and> merged [8] = Some [80]
      | _ \<Rightarrow> False)"
proof (intro conjI)
  have d0: "deref [sharedBase, sharedTop] 0 = Some sharedBase"
    and d1: "deref [sharedBase, sharedTop] 1 = Some sharedTop"
    by (simp_all add: deref_def)
  have p0: "parent sharedBase = DiskLayer demoDisk" and p1: "parent sharedTop = DiffLayer 0"
    by (simp_all add: sharedBase_def sharedTop_def demoLayer_def)
  note b = flatten_disk_parent[OF d0 p0]
  show "\<not> separate sharedMaps sharedBase sharedTop"
  proof
    assume "separate sharedMaps sharedBase sharedTop"
    then have "\<forall>a a' y. innersOf sharedMaps (storageData sharedTop) a = Some (Some y) \<longrightarrow>
                  innersOf sharedMaps (storageData sharedBase) a' \<noteq> Some (Some y)"
      unfolding separate_def by blast
    then have "innersOf sharedMaps (storageData sharedTop) [2] = Some (Some 1) \<longrightarrow>
                  innersOf sharedMaps (storageData sharedBase) [1] \<noteq> Some (Some 1)"
      by blast
    then show False
      by (simp add: innersOf_def sharedTop_def sharedBase_def demoLayer_def sharedMaps_def)
  qed
  show "case flatten demoOrder [sharedBase, sharedTop] sharedMaps 1 of
        Some (Inr (h2, ms2, r2)) \<Rightarrow>
          storage h2 ms2 r2 [2] [5] = Some (Inr [50])
      | _ \<Rightarrow> False"
    unfolding flatten_diff_parent[OF d1 p1] b
    apply (simp add: flattenInto_def deref_def)
    apply (subst storage.simps)
    apply (simp add: sharedBase_def sharedTop_def demoLayer_def deref_def demoOrder_def
        demoKeys_def sharedMaps_def nth_append)
    done
  show "case flatten demoOrderDesc [sharedBase, sharedTop] sharedMaps 1 of
        Some (Inr (h2, ms2, r2)) \<Rightarrow>
          storage h2 ms2 r2 [2] [5] = Some (Inr [2])
      | _ \<Rightarrow> False"
    unfolding flatten_diff_parent[OF d1 p1] b
    apply (simp add: flattenInto_def deref_def)
    apply (subst storage.simps)
    apply (simp add: sharedBase_def sharedTop_def demoLayer_def deref_def demoOrderDesc_def
        demoKeys_def sharedMaps_def nth_append demoDisk_def)
    done
  show "case mergeStorage (storageOf sharedMaps (storageData sharedBase))
              (storageOf sharedMaps (storageData sharedTop)) [2] of
        Some (Some merged) \<Rightarrow> merged [5] = None \<and> merged [7] = Some [70] \<and> merged [8] = Some [80]
      | _ \<Rightarrow> False"
    by (simp add: mergeStorage_def storageOf_def innersOf_def sharedBase_def sharedTop_def
        demoLayer_def sharedMaps_def)
qed

section \<open>Reverting the journal\<close>

lemma revertAll_append:
  "revertAll (xs @ ys) s ds =
     (case revertAll xs s ds of Inl err \<Rightarrow> Inl err | Inr (s', ds') \<Rightarrow> revertAll ys s' ds')"
  by (induction xs arbitrary: s ds) (auto split: sum.splits)

lemma revertLoop_scopes:
  "i < length es \<Longrightarrow> revertLoop i es s ds = revertAll (rev (take i (tl es))) s ds"
proof (induction i arbitrary: s ds)
  case 0
  then show ?case by simp
next
  case (Suc i)
  then have i: "i < length (tl es)" by simp
  have "take (Suc i) (tl es) = take i (tl es) @ [es ! Suc i]"
    using i by (simp add: take_Suc_conv_app_nth nth_tl)
  with Suc show ?case
    by (simp add: revertAll_append split: sum.splits)
qed

lemma RevertToSnapshot_scopes:
  "0 \<le> rid \<Longrightarrow> rid < int (length (entries j)) \<Longrightarrow>
   RevertToSnapshot rid j s =
     (case revertAll (rev (take (nat rid) (tl (entries j)))) s (dirties j) of
        Inl err \<Rightarrow> Inl err
      | Inr (s', ds') \<Rightarrow> Inr (j\<lparr>entries := take (nat rid) (entries j), dirties := ds'\<rparr>, s'))"
  by (simp add: RevertToSnapshot_def revertLoop_scopes split: sum.splits)

lemma RevertToSnapshot_panics:
  "RevertToSnapshot rid j s = Inl Panic" if "int (length (entries j)) \<le> rid"
  using that by (simp add: RevertToSnapshot_def)

text \<open>
  Claim C1 fails on the code. By \<open>RevertToSnapshot_scopes\<close> a revert to \<open>rid\<close> undoes
  the scopes \<open>rid, rid - 1, ..., 1\<close> and not the scopes from the top down to \<open>rid\<close>.
  First scenario: two scopes are open and scope 1 has recorded the previous value \<open>[]\<close>
  of a transient slot that now holds \<open>[9]\<close>; a snapshot (which returns 2) followed at
  once by the revert to 2 sets the slot back to \<open>[]\<close>, so the state is not the one
  before the snapshot. Second scenario: the snapshot on a new journal returns 0, the
  slot is changed and journalled, and the revert to 0 leaves the slot at \<open>[9]\<close>.
\<close>

theorem RevertToSnapshot_undoes_lower_scope:
  "(case JournalSetTransientState (snd (Snapshot (snd (Snapshot newSparseJournal)))) [1] [2] [] of
      Inl err \<Rightarrow> False
    | Inr j \<Rightarrow>
        fst (Snapshot j) = 2
        \<and> transientStorage (setTransientState demoState [1] [2] [9]) [1] [2] = [9]
        \<and> (case RevertToSnapshot (fst (Snapshot j)) (snd (Snapshot j))
                   (setTransientState demoState [1] [2] [9]) of
              Inl err \<Rightarrow> False
            | Inr (j', s') \<Rightarrow> length (entries j') = 2 \<and> transientStorage s' [1] [2] = []))
   \<and> (case JournalSetTransientState (snd (Snapshot newSparseJournal)) [1] [2] [] of
        Inl err \<Rightarrow> False
      | Inr j \<Rightarrow>
          fst (Snapshot newSparseJournal) = 0
          \<and> (case RevertToSnapshot 0 j (setTransientState demoState [1] [2] [9]) of
                Inl err \<Rightarrow> False
              | Inr (j', s') \<Rightarrow> entries j' = [] \<and> transientStorage s' [1] [2] = [9]))"
  by (simp add: JournalSetTransientState_def onTop_def Snapshot_def newSparseJournal_def
        newScopedJournal_def journalSetTransientState_def recordSlot_def RevertToSnapshot_def
        revert_def setTransientState_def demoState_def numeral_2_eq_2 Let_def)

lemma account_change_on_new_scope_panics:
  "JournalNonceChange (snd (Snapshot newSparseJournal)) addr acc destr = Inl Panic"
  by (simp add: JournalNonceChange_def journalAccountChange_def scopedAccountChange_def
        Snapshot_def newSparseJournal_def newScopedJournal_def)

end
